theory Spec2Isabelle
  imports Complex_Main "HOL-Library.Word" "HOL-Library.Log_Nat"
begin

section \<open>Machine integers of the program\<close>

text \<open>
  The source uses the Windows integer types: \<open>WORD\<close> is an unsigned 16-bit integer,
  \<open>DWORD\<close> an unsigned 32-bit integer and \<open>QWORD\<close> (\<open>unsigned __int64\<close>) an unsigned
  64-bit integer. Arithmetic on them wraps around; a \<open>static_cast\<close> to a narrower
  type keeps the low bits (\<open>ucast\<close>).
\<close>

type_synonym WORD = "16 word"
type_synonym DWORD = "32 word"
type_synonym QWORD = "64 word"

section \<open>Combinatorics: factorial and combinations\<close>

text \<open>
  \<^verbatim>\<open>
  QWORD calcFactorial (WORD wN)
  {
      if ( wN > 1 )
          return wN * calcFactorial ( wN - 1 );
      else
          return 1;
  }
  \<close>
  The product is taken in \<open>QWORD\<close>, so it wraps modulo \<open>2 ^ 64\<close>.
\<close>

function calcFactorial :: "WORD \<Rightarrow> QWORD" where
  "calcFactorial wN = (if wN > 1 then ucast wN * calcFactorial (wN - 1) else 1)"
  by pat_completeness auto
termination
proof (relation "measure unat")
  show "wf (measure (unat :: WORD \<Rightarrow> nat))" by simp
next
  fix wN :: WORD
  assume "1 < wN"
  then have "unat (wN - 1) < unat wN"
    by (metis measure_unat word_not_simps(1))
  then show "(wN - 1, wN) \<in> measure unat" by simp
qed

declare calcFactorial.simps [simp del]

text \<open>
  \<^verbatim>\<open>
  DWORD calcCombinations (DWORD dwN, DWORD dwR)
  {
      DWORD dwResult = 0;
      if ( dwR <= dwN )
      {
          const QWORD qwNFactorial   = calcFactorial ( static_cast<WORD>(dwN) );
          const QWORD qwRFactorial   = calcFactorial ( static_cast<WORD>(dwR) );
          const QWORD qwDifFactorial = calcFactorial ( static_cast<WORD>(dwN - dwR) );
          dwResult = static_cast<DWORD>(qwNFactorial / (qwRFactorial * qwDifFactorial));
      }
      return dwResult;
  }
  \<close>
  An integer division by zero has no value in C++ (the process traps); the model
  returns \<open>None\<close> there.
\<close>

definition calcCombinations :: "DWORD \<Rightarrow> DWORD \<Rightarrow> DWORD option" where
  "calcCombinations dwN dwR =
     (if dwR \<le> dwN then
        let qwNFactorial = calcFactorial (ucast dwN);
            qwRFactorial = calcFactorial (ucast dwR);
            qwDifFactorial = calcFactorial (ucast (dwN - dwR))
        in if qwRFactorial * qwDifFactorial = 0 then None
           else Some (ucast (qwNFactorial div (qwRFactorial * qwDifFactorial)))
      else Some 0)"

subsection \<open>Which factorials are evaluated\<close>

text \<open>
  The arguments with which \<open>calcFactorial\<close> is entered, in call order: the call itself
  and every recursive call it makes; and, for \<open>calcCombinations\<close>, the three calls of
  its guarded branch (none when the guard \<open>dwR <= dwN\<close> fails).
\<close>

function calcFactorial_calls :: "WORD \<Rightarrow> WORD list" where
  "calcFactorial_calls wN = wN # (if wN > 1 then calcFactorial_calls (wN - 1) else [])"
  by pat_completeness auto
termination
proof (relation "measure unat")
  show "wf (measure (unat :: WORD \<Rightarrow> nat))" by simp
next
  fix wN :: WORD
  assume "1 < wN"
  then have "unat (wN - 1) < unat wN"
    by (metis measure_unat word_not_simps(1))
  then show "(wN - 1, wN) \<in> measure unat" by simp
qed

declare calcFactorial_calls.simps [simp del]

definition calcCombinations_calls :: "DWORD \<Rightarrow> DWORD \<Rightarrow> WORD list" where
  "calcCombinations_calls dwN dwR =
     (if dwR \<le> dwN then
        calcFactorial_calls (ucast dwN) @ calcFactorial_calls (ucast dwR)
          @ calcFactorial_calls (ucast (dwN - dwR))
      else [])"

section \<open>Double-precision arithmetic\<close>

text \<open>
  \<open>double\<close> is the IEEE 754 binary64 format: a finite value is a sign and a magnitude
  \<open>m * 2 ^ e\<close> with \<open>m < 2 ^ 53\<close> and \<open>e \<ge> - 1074\<close>, below \<open>2 ^ 1024\<close>; besides
  these there are the two infinities and NaN. Zero carries a sign. Every
  operation returns the exact result rounded to the nearest representable value,
  ties to the even mantissa (the default rounding mode). The model assumes that
  each \<open>double\<close> operation of the source is carried out in binary64 in this
  rounding mode, one operation at a time in source order (no extended-precision
  intermediate results, no fused or reassociated operations).
\<close>

datatype double = Finite bool rat | Infinite bool | NaN

text \<open>\<open>ilog2 q\<close> is the binary exponent of a positive rational: \<open>2 ^ ilog2 q \<le> q < 2 ^ (ilog2 q + 1)\<close>.\<close>

definition ilog2 :: "rat \<Rightarrow> int" where
  "ilog2 q = (case quotient_of q of (a, b) \<Rightarrow>
                let d = bitlen a - bitlen b in if 2 powi d \<le> q then d else d - 1)"

text \<open>Rounding to the nearest integer, ties to even.\<close>

definition rne :: "rat \<Rightarrow> int" where
  "rne x = (let f = \<lfloor>x\<rfloor>; d = x - of_int f in
              if d < 1 / 2 then f else if 1 / 2 < d then f + 1
              else if even f then f else f + 1)"

text \<open>
  Rounding a non-negative magnitude to binary64: the spacing of representable
  values around \<open>q\<close> is \<open>2 ^ (e - 52)\<close>, where \<open>e\<close> is the exponent of \<open>q\<close>, but not
  below the smallest normal exponent \<open>- 1022\<close> (subnormals); a result of \<open>2 ^ 1024\<close>
  or more overflows to infinity.
\<close>

definition round_double :: "bool \<Rightarrow> rat \<Rightarrow> double" where
  "round_double s q =
     (if q = 0 then Finite s 0
      else let e = max (ilog2 q) (- 1022);
               ulp = 2 powi (e - 52);
               r = of_int (rne (q / ulp)) * ulp
           in if 2 powi 1024 \<le> r then Infinite s else Finite s r)"

fun fmul :: "double \<Rightarrow> double \<Rightarrow> double" where
  "fmul NaN _ = NaN"
| "fmul _ NaN = NaN"
| "fmul (Infinite s) (Infinite t) = Infinite (s \<noteq> t)"
| "fmul (Infinite s) (Finite t y) = (if y = 0 then NaN else Infinite (s \<noteq> t))"
| "fmul (Finite s x) (Infinite t) = (if x = 0 then NaN else Infinite (s \<noteq> t))"
| "fmul (Finite s x) (Finite t y) = round_double (s \<noteq> t) (x * y)"

fun fdiv :: "double \<Rightarrow> double \<Rightarrow> double" where
  "fdiv NaN _ = NaN"
| "fdiv _ NaN = NaN"
| "fdiv (Infinite s) (Infinite t) = NaN"
| "fdiv (Infinite s) (Finite t y) = Infinite (s \<noteq> t)"
| "fdiv (Finite s x) (Infinite t) = Finite (s \<noteq> t) 0"
| "fdiv (Finite s x) (Finite t y) =
     (if y = 0 then (if x = 0 then NaN else Infinite (s \<noteq> t))
      else round_double (s \<noteq> t) (x / y))"

text \<open>The signed value of a finite double.\<close>

fun valof :: "double \<Rightarrow> rat" where
  "valof (Finite s x) = (if s then - x else x)"
| "valof (Infinite s) = 0"
| "valof NaN = 0"

fun is_finite :: "double \<Rightarrow> bool" where
  "is_finite (Finite s x) = True"
| "is_finite (Infinite s) = False"
| "is_finite NaN = False"

text \<open>
  An exact sum of zero is \<open>+0.0\<close>, except that \<open>(-0.0) + (-0.0)\<close> is \<open>-0.0\<close>.
\<close>

fun fadd :: "double \<Rightarrow> double \<Rightarrow> double" where
  "fadd NaN _ = NaN"
| "fadd _ NaN = NaN"
| "fadd (Infinite s) (Infinite t) = (if s = t then Infinite s else NaN)"
| "fadd (Infinite s) (Finite t y) = Infinite s"
| "fadd (Finite s x) (Infinite t) = Infinite t"
| "fadd (Finite s x) (Finite t y) =
     (let r = valof (Finite s x) + valof (Finite t y)
      in if r = 0 then Finite (s \<and> t) 0 else round_double (r < 0) \<bar>r\<bar>)"

text \<open>The comparisons \<open>a > b\<close> and \<open>a == b\<close>: false when an operand is NaN; \<open>-0.0 == +0.0\<close>.\<close>

fun fgt :: "double \<Rightarrow> double \<Rightarrow> bool" where
  "fgt NaN _ = False"
| "fgt _ NaN = False"
| "fgt (Infinite s) (Infinite t) = (\<not> s \<and> t)"
| "fgt (Infinite s) (Finite t y) = (\<not> s)"
| "fgt (Finite s x) (Infinite t) = t"
| "fgt (Finite s x) (Finite t y) = (valof (Finite t y) < valof (Finite s x))"

fun feq :: "double \<Rightarrow> double \<Rightarrow> bool" where
  "feq NaN _ = False"
| "feq _ NaN = False"
| "feq (Infinite s) (Infinite t) = (s = t)"
| "feq (Infinite s) (Finite t y) = False"
| "feq (Finite s x) (Infinite t) = False"
| "feq (Finite s x) (Finite t y) = (valof (Finite s x) = valof (Finite t y))"

text \<open>Conversion of an integer (\<open>int\<close>, \<open>DWORD\<close>) to \<open>double\<close>.\<close>

definition double_of_int :: "int \<Rightarrow> double" where
  "double_of_int k = round_double (k < 0) (of_int \<bar>k\<bar>)"

section \<open>Partial factorial\<close>

text \<open>
  \<^verbatim>\<open>
  double calcPartialFactorial (WORD wN, WORD wNumTerms)
  {
      double fResult = 1.0;
      for ( WORD i = 0; i < wNumTerms; i++ )
      {
          fResult = fResult * (wN - i);
      }
      return fResult;
  }
  \<close>
  In \<open>wN - i\<close> both operands are promoted to \<open>int\<close>, so the difference is the
  mathematical one (negative once \<open>i\<close> exceeds \<open>wN\<close>) and is then converted to
  \<open>double\<close>.
\<close>

function calcPartialFactorial_loop :: "WORD \<Rightarrow> WORD \<Rightarrow> WORD \<Rightarrow> double \<Rightarrow> double" where
  "calcPartialFactorial_loop wN wNumTerms i fResult =
     (if i < wNumTerms
      then calcPartialFactorial_loop wN wNumTerms (i + 1)
             (fmul fResult (double_of_int (uint wN - uint i)))
      else fResult)"
  by pat_completeness auto
termination
proof (relation "measure (\<lambda>(wN, wNumTerms, i, fResult). unat wNumTerms - unat i)")
  show "wf (measure (\<lambda>(wN :: WORD, wNumTerms :: WORD, i :: WORD, fResult :: double).
              unat wNumTerms - unat i))"
    by simp
next
  fix wN wNumTerms i :: WORD and fResult :: double
  assume lt: "i < wNumTerms"
  then have "unat i < unat wNumTerms" by (simp add: word_less_nat_alt)
  moreover have "unat wNumTerms < 2 ^ LENGTH(16)" by (rule unsigned_less)
  ultimately have "unat i + 1 < 65536" by simp
  then have "unat (i + 1) = unat i + 1" by (simp add: unat_word_ariths)
  with \<open>unat i < unat wNumTerms\<close>
  show "((wN, wNumTerms, i + 1, fmul fResult (double_of_int (uint wN - uint i))),
                    (wN, wNumTerms, i, fResult))
      \<in> measure (\<lambda>(wN, wNumTerms, i, fResult). unat wNumTerms - unat i)"
    by simp
qed

declare calcPartialFactorial_loop.simps [simp del]

definition calcPartialFactorial :: "WORD \<Rightarrow> WORD \<Rightarrow> double" where
  "calcPartialFactorial wN wNumTerms = calcPartialFactorial_loop wN wNumTerms 0 (Finite False 1)"

section \<open>Keno probability\<close>

definition g_MAX_ROWS :: nat where "g_MAX_ROWS = 20"
definition g_MAX_COLS :: nat where "g_MAX_COLS = 21"
definition g_TOTAL_BALLS :: int where "g_TOTAL_BALLS = 80"
definition g_MAX_SELECTABLE_BALLS :: int where "g_MAX_SELECTABLE_BALLS = 20"
definition g_MAX_SPOTS_MARKED :: nat where "g_MAX_SPOTS_MARKED = 9"

text \<open>
  \<^verbatim>\<open>
  double calcKenoProbability ( DWORD dwNumMarked, DWORD dwCaught )
  {
      double fResult = 0.0;
      const DWORD dwNumCombinations = calcCombinations (dwNumMarked, dwCaught);
      const double qwP1 = calcPartialFactorial ( static_cast<WORD>(g_MAX_SELECTABLE_BALLS), static_cast<WORD>(dwCaught) );
      const double qwP2 = calcPartialFactorial ( static_cast<WORD>(g_TOTAL_BALLS - g_MAX_SELECTABLE_BALLS), static_cast<WORD>(dwNumMarked - dwCaught) );
      const double qwP3 = calcPartialFactorial ( static_cast<WORD>(g_TOTAL_BALLS), static_cast<WORD>(dwNumMarked) );
      fResult = static_cast<double>(dwNumCombinations) * qwP1 * qwP2 / qwP3;
      return fResult;
  }
  \<close>
  The result is \<open>None\<close> when \<open>calcCombinations\<close> divides by zero.
\<close>

definition calcKenoProbability :: "DWORD \<Rightarrow> DWORD \<Rightarrow> double option" where
  "calcKenoProbability dwNumMarked dwCaught =
     (case calcCombinations dwNumMarked dwCaught of
        None \<Rightarrow> None
      | Some dwNumCombinations \<Rightarrow>
          let qwP1 = calcPartialFactorial (word_of_int g_MAX_SELECTABLE_BALLS) (ucast dwCaught);
              qwP2 = calcPartialFactorial (word_of_int (g_TOTAL_BALLS - g_MAX_SELECTABLE_BALLS))
                       (ucast (dwNumMarked - dwCaught));
              qwP3 = calcPartialFactorial (word_of_int g_TOTAL_BALLS) (ucast dwNumMarked)
          in Some (fdiv (fmul (fmul (double_of_int (uint dwNumCombinations)) qwP1) qwP2) qwP3))"

section \<open>The tables and the two loops of the main program\<close>

text \<open>
  \<open>g_rgProbability\<close> is a 20 x 21 array and \<open>g_rgExpectedValue\<close> a 9-element array,
  both initialised to \<open>0.0\<close>; \<open>g_rgCatchPayOut\<close> is the constant 9 x 9 payout table.
\<close>

definition g_rgProbability_init :: "double list list" where
  "g_rgProbability_init = replicate g_MAX_ROWS (replicate g_MAX_COLS (Finite False 0))"

definition g_rgExpectedValue_init :: "double list" where
  "g_rgExpectedValue_init = replicate g_MAX_SPOTS_MARKED (Finite False 0)"

definition g_rgCatchPayOut :: "double list list" where
  "g_rgCatchPayOut = map (map (\<lambda>k :: nat. Finite False (of_nat k)))
     [[3,  0,  0,   0,   0,    0,    0,     0,     0],
      [0, 12,  0,   0,   0,    0,    0,     0,     0],
      [0,  1, 42,   0,   0,    0,    0,     0,     0],
      [0,  1,  3, 120,   0,    0,    0,     0,     0],
      [0,  0,  1,   9, 800,    0,    0,     0,     0],
      [0,  0,  1,   4,  88, 1500,    0,     0,     0],
      [0,  0,  0,   2,  20,  350,  700,     0,     0],
      [0,  0,  0,   0,   9,   90, 1500, 20000,     0],
      [0,  0,  0,   0,   4,   43, 3000,  4000, 25000]]"

text \<open>
  The first loop nest of \<open>_tmain\<close>:
  \<^verbatim>\<open>
  for ( int i = 0; i < g_MAX_ROWS; i++ )
  {
      const int iNumSpotsMarked = i + 1;
      for ( int j = 0; j < g_MAX_COLS; j++ )
      {
          if ( iNumSpotsMarked >= j )
              g_rgProbability[i][j] = calcKenoProbability ( iNumSpotsMarked, j );
          else
          {
              // probability is zero
          }
      }
  }
  \<close>
  The state is the array together with the list of argument pairs with which
  \<open>calcKenoProbability\<close> has been called so far. The loop counters are \<open>int\<close>s that
  stay within 0..21; they are natural numbers here, converted to \<open>DWORD\<close> at the
  call. The loop stops with \<open>None\<close> if a call traps.
\<close>

type_synonym prob_state = "double list list \<times> (DWORD \<times> DWORD) list"

function prob_cols :: "nat \<Rightarrow> nat \<Rightarrow> prob_state \<Rightarrow> prob_state option" where
  "prob_cols i j st =
     (if j < g_MAX_COLS then
        (if i + 1 \<ge> j then
           (case calcKenoProbability (of_nat (i + 1)) (of_nat j) of
              None \<Rightarrow> None
            | Some p \<Rightarrow>
                prob_cols i (j + 1)
                  ((fst st)[i := (fst st ! i)[j := p]], snd st @ [(of_nat (i + 1), of_nat j)]))
         else prob_cols i (j + 1) st)
      else Some st)"
  by pat_completeness auto
termination
  by (relation "measure (\<lambda>(i, j, st). g_MAX_COLS - j)") auto

declare prob_cols.simps [simp del]

function prob_rows :: "nat \<Rightarrow> prob_state \<Rightarrow> prob_state option" where
  "prob_rows i st =
     (if i < g_MAX_ROWS then
        (case prob_cols i 0 st of None \<Rightarrow> None | Some st' \<Rightarrow> prob_rows (i + 1) st')
      else Some st)"
  by pat_completeness auto
termination
  by (relation "measure (\<lambda>(i, st). g_MAX_ROWS - i)") auto

declare prob_rows.simps [simp del]

text \<open>
  The second loop nest:
  \<^verbatim>\<open>
  for ( int i = 0; i < g_MAX_SPOTS_MARKED; i++ )
  {
      for ( int j = 0; j < g_MAX_SPOTS_MARKED; j++ )
      {
          double dPayout = g_rgCatchPayOut[i][j];
          if ( dPayout > 0 )
          {
              const double dKenoProb = g_rgProbability[i][j+1];
              g_rgExpectedValue[i] += (dKenoProb * dPayout / (i+2));
          }
      }
  }
  \<close>
\<close>

function ev_cols :: "double list list \<Rightarrow> nat \<Rightarrow> nat \<Rightarrow> double list \<Rightarrow> double list" where
  "ev_cols P i j E =
     (if j < g_MAX_SPOTS_MARKED then
        (let dPayout = g_rgCatchPayOut ! i ! j in
         if fgt dPayout (double_of_int 0) then
           (let dKenoProb = P ! i ! (j + 1) in
            ev_cols P i (j + 1)
              (E[i := fadd (E ! i) (fdiv (fmul dKenoProb dPayout) (double_of_int (int i + 2)))]))
         else ev_cols P i (j + 1) E)
      else E)"
  by pat_completeness auto
termination
  by (relation "measure (\<lambda>(P, i, j, E). g_MAX_SPOTS_MARKED - j)") auto

declare ev_cols.simps [simp del]

function ev_rows :: "double list list \<Rightarrow> nat \<Rightarrow> double list \<Rightarrow> double list" where
  "ev_rows P i E =
     (if i < g_MAX_SPOTS_MARKED then ev_rows P (i + 1) (ev_cols P i 0 E) else E)"
  by pat_completeness auto
termination
  by (relation "measure (\<lambda>(P, i, E). g_MAX_SPOTS_MARKED - i)") auto

declare ev_rows.simps [simp del]

text \<open>
  The computational part of \<open>_tmain\<close>: the final probability matrix, the list of
  calls of \<open>calcKenoProbability\<close> made while filling it, and the expected values.
\<close>

definition tmain :: "(double list list \<times> (DWORD \<times> DWORD) list \<times> double list) option" where
  "tmain =
     (case prob_rows 0 (g_rgProbability_init, []) of
        None \<Rightarrow> None
      | Some (P, calls) \<Rightarrow> Some (P, calls, ev_rows P 0 g_rgExpectedValue_init))"

section \<open>Mathematical reference quantities\<close>

text \<open>
  The falling factorial \<open>n * (n - 1) * ... * (n - k + 1)\<close> (0 as soon as \<open>k\<close> exceeds \<open>n\<close>),
  and the hypergeometric probability of catching \<open>c\<close> of \<open>m\<close> marked numbers when
  20 of 80 balls are drawn.
\<close>

primrec falling :: "nat \<Rightarrow> nat \<Rightarrow> nat" where
  "falling n 0 = 1"
| "falling n (Suc k) = falling n k * (n - k)"

declare falling.simps(2) [simp del]

definition hypergeometric :: "nat \<Rightarrow> nat \<Rightarrow> rat" where
  "hypergeometric m c = of_nat (20 choose c) * of_nat (60 choose (m - c)) / of_nat (80 choose m)"

text \<open>
  One iteration of the loop of \<open>calcPartialFactorial\<close> with the loop counter as a
  natural number.
\<close>

definition pf_step :: "nat \<Rightarrow> double \<Rightarrow> nat \<Rightarrow> double" where
  "pf_step n acc t = fmul acc (double_of_int (int n - int t))"

text \<open>
  The unit roundoff of binary64, and the relation "the double \<open>d\<close> is positive, finite
  and within \<open>k\<close> rounding steps of the exact positive value \<open>y\<close>".
\<close>

definition eps :: rat where "eps = 1 / 2 ^ 53"

definition approx :: "nat \<Rightarrow> double \<Rightarrow> rat \<Rightarrow> bool" where
  "approx k d y =
     (case d of
        Finite s v \<Rightarrow> \<not> s \<and> 0 < y \<and> y * (1 - eps) ^ k \<le> v \<and> v * (1 - eps) ^ k \<le> y
      | Infinite s \<Rightarrow> False
      | NaN \<Rightarrow> False)"

section \<open>Closed forms of the loops\<close>

text \<open>
  The calls of \<open>calcKenoProbability\<close> made for row \<open>i\<close> from column \<open>j\<close> on, and by the
  whole first loop nest; the value the first loop nest leaves in cell \<open>(i, k)\<close>; and the
  update of the running sum made by the second loop nest in row \<open>i\<close>, column \<open>j\<close>.
\<close>

definition row_calls :: "nat \<Rightarrow> nat \<Rightarrow> (DWORD \<times> DWORD) list" where
  "row_calls i j = map (\<lambda>k. (of_nat (i + 1), of_nat k)) (filter (\<lambda>k. k \<le> i + 1) [j..<21])"

definition cell :: "nat \<Rightarrow> nat \<Rightarrow> double" where
  "cell i k =
     (if k \<le> i + 1 then
        (case calcKenoProbability (of_nat (i + 1)) (of_nat k) of
           Some p \<Rightarrow> p
         | None \<Rightarrow> Finite False 0)
      else Finite False 0)"

definition all_calls :: "(DWORD \<times> DWORD) list" where
  "all_calls = concat (map (\<lambda>r. row_calls r 0) [0..<20])"

definition ev_term :: "double list list \<Rightarrow> nat \<Rightarrow> double \<Rightarrow> nat \<Rightarrow> double" where
  "ev_term P i acc j =
     (if fgt (g_rgCatchPayOut ! i ! j) (double_of_int 0)
      then fadd acc (fdiv (fmul (P ! i ! (j + 1)) (g_rgCatchPayOut ! i ! j)) (double_of_int (int i + 2)))
      else acc)"

section \<open>Factorials modulo \<open>2 ^ 64\<close>\<close>

lemma calcFactorial_of_nat:
  "n < 65536 \<Longrightarrow> calcFactorial (of_nat n) = of_nat (fact n)"
proof (induction n)
  case 0
  show ?case by (simp add: calcFactorial.simps)
next
  case (Suc n)
  show ?case
  proof (cases "n = 0")
    case True
    then show ?thesis by (simp add: calcFactorial.simps)
  next
    case False
    with Suc.prems have gt: "(1 :: WORD) < of_nat (Suc n)"
      by (simp add: word_less_nat_alt unat_of_nat del: of_nat_Suc)
    have "calcFactorial (of_nat (Suc n)) = ucast (of_nat (Suc n) :: WORD) * calcFactorial (of_nat (Suc n) - 1)"
      using gt by (subst calcFactorial.simps) simp
    also have "(of_nat (Suc n) :: WORD) - 1 = of_nat n" by simp
    also have "ucast (of_nat (Suc n) :: WORD) = (of_nat (Suc n) :: QWORD)"
      using Suc.prems by (simp add: unsigned_of_nat take_bit_nat_eq_self del: of_nat_Suc)
    finally show ?thesis using Suc by (simp add: algebra_simps)
  qed
qed

lemma calcFactorial_unat: "calcFactorial w = of_nat (fact (unat w))"
proof -
  have "unat w < 2 ^ LENGTH(16)" by (rule unsigned_less)
  then have "unat w < 65536" by simp
  then have "calcFactorial (of_nat (unat w)) = of_nat (fact (unat w))"
    by (rule calcFactorial_of_nat)
  then show ?thesis by simp
qed

lemma fact_20_bound: "n \<le> 20 \<Longrightarrow> fact n < (2 :: nat) ^ 64"
proof -
  assume "n \<le> 20"
  then have "fact n \<le> (fact 20 :: nat)" by (rule fact_mono)
  also have "(fact 20 :: nat) < 2 ^ 64" by (simp add: fact_numeral)
  finally show ?thesis .
qed

lemma unat_calcFactorial_small:
  assumes "unat w \<le> 20"
  shows "unat (calcFactorial w) = fact (unat w)"
proof -
  have "fact (unat w) < (2 :: nat) ^ LENGTH(64)"
    using fact_20_bound [OF assms] by simp
  then show ?thesis
    by (simp add: calcFactorial_unat unat_of_nat take_bit_nat_eq_self)
qed

lemma unat_ucast_dword_small:
  "unat (dw :: DWORD) \<le> 20 \<Longrightarrow> unat (ucast dw :: WORD) = unat dw"
  by (simp add: unsigned_ucast_eq take_bit_nat_eq_self)

lemma calcCombinations_exact:
  assumes n: "unat dwN \<le> 20" and r: "dwR \<le> dwN"
  shows "calcCombinations dwN dwR = Some (of_nat (unat dwN choose unat dwR))"
    and "unat (calcFactorial (ucast dwR) * calcFactorial (ucast (dwN - dwR))) = fact (unat dwR) * fact (unat dwN - unat dwR)"
proof -
  let ?n = "unat dwN" and ?r = "unat dwR"
  have rn: "?r \<le> ?n" using r by (simp add: word_le_nat_alt)
  have d: "unat (dwN - dwR) = ?n - ?r" using r by (simp add: unat_sub)
  have fn: "unat (calcFactorial (ucast dwN)) = fact ?n"
    using n by (simp add: unat_calcFactorial_small unat_ucast_dword_small)
  have fr: "unat (calcFactorial (ucast dwR)) = fact ?r"
    using n rn by (simp add: unat_calcFactorial_small unat_ucast_dword_small)
  have fd: "unat (calcFactorial (ucast (dwN - dwR))) = fact (?n - ?r)"
    using n rn d by (simp add: unat_calcFactorial_small unat_ucast_dword_small)
  have "fact ?r * fact (?n - ?r) * (?n choose ?r) = (fact ?n :: nat)"
    using rn by (rule binomial_fact_lemma)
  then have dv: "fact ?r * fact (?n - ?r) dvd (fact ?n :: nat)"
    by (metis dvd_triv_left)
  then have "fact ?r * fact (?n - ?r) \<le> (fact ?n :: nat)"
    by (rule dvd_imp_le) simp
  also have "\<dots> < 2 ^ 64" using n by (rule fact_20_bound)
  finally have lt: "fact ?r * fact (?n - ?r) < (2 :: nat) ^ 64" .
  show prod: "unat (calcFactorial (ucast dwR) * calcFactorial (ucast (dwN - dwR))) = fact ?r * fact (?n - ?r)"
    using lt by (simp add: unat_word_ariths fr fd)
  have nz: "calcFactorial (ucast dwR) * calcFactorial (ucast (dwN - dwR)) \<noteq> 0"
    using prod by (metis fact_nonzero mult_eq_0_iff unsigned_0)
  have q: "unat (calcFactorial (ucast dwN) div (calcFactorial (ucast dwR) * calcFactorial (ucast (dwN - dwR)))) = ?n choose ?r"
    using rn by (simp add: unat_div prod fn binomial_fact')
  have "(ucast (calcFactorial (ucast dwN) div (calcFactorial (ucast dwR) * calcFactorial (ucast (dwN - dwR)))) :: DWORD)
      = of_nat (?n choose ?r)"
    unfolding q [symmetric] by simp
  then show "calcCombinations dwN dwR = Some (of_nat (unat dwN choose unat dwR))"
    using r nz by (simp add: calcCombinations_def Let_def)
qed

lemma fact_66_dvd: "(2 :: nat) ^ 64 dvd fact 66"
  by (simp add: fact_numeral)

lemma fact_65_not_dvd: "\<not> (2 :: nat) ^ 64 dvd fact 65"
  by (simp add: fact_numeral)

lemma calcFactorial_eq_0_iff: "calcFactorial w = 0 \<longleftrightarrow> 66 \<le> unat w"
proof
  assume z: "calcFactorial w = 0"
  show "66 \<le> unat w"
  proof (rule ccontr)
    assume "\<not> 66 \<le> unat w"
    then have "unat w \<le> 65" by simp
    then have "(fact (unat w) :: nat) dvd fact 65" by (rule fact_dvd)
    moreover have "(2 :: nat) ^ 64 dvd fact (unat w)"
      using z by (simp add: calcFactorial_unat word_of_nat_eq_0_iff)
    ultimately have "(2 :: nat) ^ 64 dvd fact 65" by (rule dvd_trans [rotated])
    with fact_65_not_dvd show False by contradiction
  qed
next
  assume "66 \<le> unat w"
  then have "(fact 66 :: nat) dvd fact (unat w)" by (rule fact_dvd)
  with fact_66_dvd have "(2 :: nat) ^ 64 dvd fact (unat w)" by (rule dvd_trans)
  then show "calcFactorial w = 0"
    by (simp add: calcFactorial_unat word_of_nat_eq_0_iff)
qed

lemma calcFactorial_0: "calcFactorial 0 = 1"
  by (simp add: calcFactorial.simps)

lemma qword_div_self: "(x :: QWORD) \<noteq> 0 \<Longrightarrow> x div x = 1"
proof -
  assume "x \<noteq> 0"
  then have "unat x \<noteq> 0" by (simp add: unat_eq_0)
  then have "unat (x div x) = unat (1 :: QWORD)" by (simp add: unat_div)
  then show ?thesis by (rule word_unat_eq_iff [THEN iffD2])
qed

lemma calcCombinations_zero:
  "calcCombinations dwN 0 = (if unat (ucast dwN :: WORD) < 66 then Some 1 else None)"
  by (simp add: calcCombinations_def Let_def calcFactorial_0 calcFactorial_eq_0_iff qword_div_self not_le)

lemma calcCombinations_self:
  "calcCombinations dwN dwN = (if unat (ucast dwN :: WORD) < 66 then Some 1 else None)"
  by (simp add: calcCombinations_def Let_def calcFactorial_0 calcFactorial_eq_0_iff qword_div_self not_le)

section \<open>Properties of binary64 rounding\<close>

lemma powi2_pos [simp]: "0 < (2 :: rat) powi e"
  by simp

lemma powi2_add: "(2 :: rat) powi (a + b) = 2 powi a * 2 powi b"
  by (rule power_int_add) simp

lemma powi2_mono: "a \<le> b \<Longrightarrow> (2 :: rat) powi a \<le> 2 powi b"
  by (rule power_int_increasing) simp_all

lemma powi2_less_cancel: "(2 :: rat) powi a < 2 powi b \<Longrightarrow> a < b"
  by (rule ccontr) (use powi2_mono [of b a] in simp)

lemma powi2_Suc: "(2 :: rat) powi (a + 1) = 2 * 2 powi a"
  by (simp add: powi2_add)

lemma bitlen_powi_bounds:
  assumes "0 < a"
  shows "(2 :: rat) powi (bitlen a - 1) \<le> of_int a" and "of_int a < (2 :: rat) powi bitlen a"
proof -
  from assms have b: "1 \<le> bitlen a" by (simp add: bitlen_alt_def)
  from bitlen_bounds [OF assms]
  have l: "2 ^ nat (bitlen a - 1) \<le> a" and u: "a < 2 ^ nat (bitlen a)" by simp_all
  have "(2 :: rat) powi (bitlen a - 1) = 2 ^ nat (bitlen a - 1)"
    using b by (simp add: power_int_def)
  also have "\<dots> = of_int (2 ^ nat (bitlen a - 1))" by simp
  also have "\<dots> \<le> of_int a" using l by (simp only: of_int_le_iff)
  finally show "(2 :: rat) powi (bitlen a - 1) \<le> of_int a" .
  have "(of_int a :: rat) < of_int (2 ^ nat (bitlen a))" using u by (simp only: of_int_less_iff)
  also have "\<dots> = 2 powi bitlen a" using b by (simp add: power_int_def)
  finally show "of_int a < (2 :: rat) powi bitlen a" .
qed

lemma ilog2_bounds:
  assumes "0 < q"
  shows "2 powi ilog2 q \<le> q" and "q < 2 powi (ilog2 q + 1)"
proof -
  obtain a b where ab: "quotient_of q = (a, b)" by (cases "quotient_of q")
  then have bpos: "0 < b" by (rule quotient_of_denom_pos)
  have q: "q = of_int a / of_int b" using ab by (rule quotient_of_div)
  have apos: "0 < a"
    using assms bpos unfolding q by (simp add: zero_less_divide_iff)
  let ?d = "bitlen a - bitlen b"
  have e: "ilog2 q = (if 2 powi ?d \<le> q then ?d else ?d - 1)"
    by (simp add: ilog2_def ab Let_def)
  have bq: "(0 :: rat) < of_int b" using bpos by simp
  have up: "q < 2 powi (?d + 1)"
  proof -
    have "of_int a < (2 :: rat) powi bitlen a" using apos by (rule bitlen_powi_bounds)
    also have "\<dots> = 2 powi (?d + 1) * 2 powi (bitlen b - 1)"
      by (simp flip: powi2_add)
    also have "\<dots> \<le> 2 powi (?d + 1) * of_int b"
      using bitlen_powi_bounds(1) [OF bpos] by (intro mult_left_mono) simp_all
    finally show ?thesis unfolding q using bq by (simp add: pos_divide_less_eq)
  qed
  have lo: "2 powi (?d - 1) \<le> q"
  proof -
    have "(2 :: rat) powi (?d - 1) * of_int b \<le> 2 powi (?d - 1) * 2 powi bitlen b"
      using bitlen_powi_bounds(2) [OF bpos] by (intro mult_left_mono) simp_all
    also have "\<dots> = 2 powi (bitlen a - 1)" by (simp flip: powi2_add)
    also have "\<dots> \<le> of_int a" using apos by (rule bitlen_powi_bounds)
    finally show ?thesis unfolding q using bq by (simp add: pos_le_divide_eq)
  qed
  show "2 powi ilog2 q \<le> q" using lo by (simp add: e)
  show "q < 2 powi (ilog2 q + 1)" using up by (auto simp add: e not_le)
qed

lemma ilog2_unique:
  assumes "2 powi e \<le> q" and "q < 2 powi (e + 1)"
  shows "ilog2 q = e"
proof -
  have qpos: "0 < q" using assms(1) powi2_pos [of e] by linarith
  have "(2 :: rat) powi ilog2 q < 2 powi (e + 1)"
    using ilog2_bounds(1) [OF qpos] assms(2) by linarith
  then have "ilog2 q < e + 1" by (rule powi2_less_cancel)
  moreover have "(2 :: rat) powi e < 2 powi (ilog2 q + 1)"
    using ilog2_bounds(2) [OF qpos] assms(1) by linarith
  then have "e < ilog2 q + 1" by (rule powi2_less_cancel)
  ultimately show ?thesis by simp
qed

lemma rne_error: "\<bar>of_int (rne x) - x\<bar> \<le> 1 / 2"
proof -
  have "of_int \<lfloor>x\<rfloor> \<le> x" "x < of_int \<lfloor>x\<rfloor> + 1" by linarith+
  then show ?thesis by (auto simp add: rne_def Let_def)
qed

lemma rne_of_int [simp]: "rne (of_int k) = k"
  by (simp add: rne_def)

lemma rne_ge: "of_int k \<le> x \<Longrightarrow> k \<le> rne x"
proof -
  assume "of_int k \<le> x"
  then have "k \<le> \<lfloor>x\<rfloor>" by (simp add: le_floor_iff)
  then show ?thesis by (auto simp add: rne_def Let_def)
qed

lemma eps_powi: "eps = 2 powi (- 53)"
  by (simp add: eps_def power_int_minus_divide)

lemma powi2_split: "(2 :: rat) powi e = 2 ^ n * 2 powi (e - int n)"
  using powi2_add [of "int n" "e - int n"] by simp

lemma round_double_normal:
  assumes lo: "2 powi (- 1022) \<le> q" and hi: "q \<le> 2 powi 1023"
  shows "\<exists>r. round_double s q = Finite s r \<and> \<bar>r - q\<bar> \<le> eps * q"
proof -
  have qpos: "0 < q" using lo powi2_pos [of "- 1022"] by linarith
  define e where "e = ilog2 q"
  have e1: "2 powi e \<le> q" and e2: "q < 2 powi (e + 1)"
    unfolding e_def using ilog2_bounds [OF qpos] by simp_all
  have "(2 :: rat) powi (- 1022) < 2 powi (e + 1)" using lo e2 by linarith
  then have "- 1022 < e + 1" by (rule powi2_less_cancel)
  then have m: "max e (- 1022) = e" by simp
  define ulp :: rat where "ulp = 2 powi (e - 52)"
  have ulp_pos: "0 < ulp" by (simp add: ulp_def)
  define r where "r = of_int (rne (q / ulp)) * ulp"
  have "r - q = (of_int (rne (q / ulp)) - q / ulp) * ulp"
    using ulp_pos by (simp add: r_def field_simps)
  then have "\<bar>r - q\<bar> = \<bar>of_int (rne (q / ulp)) - q / ulp\<bar> * ulp"
    using ulp_pos by (simp add: abs_mult abs_of_pos)
  also have "\<dots> \<le> 1 / 2 * ulp"
    using rne_error [of "q / ulp"] ulp_pos by (intro mult_right_mono) simp_all
  also have "\<dots> = eps * 2 powi e"
    using powi2_split [of e 52] by (simp add: ulp_def eps_def)
  also have "\<dots> \<le> eps * q" using e1 by (intro mult_left_mono) (simp_all add: eps_def)
  finally have err: "\<bar>r - q\<bar> \<le> eps * q" .
  have "eps < 1" by (simp add: eps_def)
  then have "eps * q < q" using qpos by simp
  with err have "r < 2 * q" by linarith
  also have "\<dots> \<le> 2 * 2 powi 1023" using hi by simp
  also have "\<dots> = 2 powi 1024" by simp
  finally have fin: "\<not> 2 powi 1024 \<le> r" by simp
  have "round_double s q = Finite s r"
    using qpos fin by (simp add: round_double_def Let_def m e_def [symmetric] ulp_def [symmetric] r_def [symmetric])
  with err show ?thesis by blast
qed

lemma round_double_overflow:
  assumes "2 powi 1024 \<le> q"
  shows "round_double s q = Infinite s"
proof -
  have qpos: "0 < q" using assms powi2_pos [of 1024] by linarith
  define e where "e = ilog2 q"
  have e1: "2 powi e \<le> q" and e2: "q < 2 powi (e + 1)"
    unfolding e_def using ilog2_bounds [OF qpos] by simp_all
  have "(2 :: rat) powi 1024 < 2 powi (e + 1)" using assms e2 by linarith
  then have big: "1024 < e + 1" by (rule powi2_less_cancel)
  then have m: "max e (- 1022) = e" by simp
  define ulp :: rat where "ulp = 2 powi (e - 52)"
  have ulp_pos: "0 < ulp" by (simp add: ulp_def)
  define r where "r = of_int (rne (q / ulp)) * ulp"
  have "(2 :: rat) powi (52 + (e - 52)) = 2 powi 52 * 2 powi (e - 52)" by (rule powi2_add)
  then have split: "2 powi e = of_int (2 ^ 52) * ulp" by (simp add: ulp_def)
  with e1 have "of_int (2 ^ 52) * ulp \<le> q" by simp
  then have "of_int (2 ^ 52) \<le> q / ulp" using ulp_pos by (simp only: pos_le_divide_eq)
  then have "2 ^ 52 \<le> rne (q / ulp)" by (rule rne_ge)
  then have "(of_int (2 ^ 52) :: rat) \<le> of_int (rne (q / ulp))" by (simp only: of_int_le_iff)
  then have "of_int (2 ^ 52) * ulp \<le> r" unfolding r_def using ulp_pos by (intro mult_right_mono) simp_all
  moreover note split [symmetric]
  moreover have "(2 :: rat) powi 1024 \<le> 2 powi e" using big by (intro powi2_mono) simp
  ultimately have "2 powi 1024 \<le> r" by linarith
  then show ?thesis
    using qpos by (simp add: round_double_def Let_def m e_def [symmetric] ulp_def [symmetric] r_def [symmetric])
qed

lemma round_double_int_exact:
  assumes "0 \<le> k" and "k < 2 ^ 53"
  shows "round_double s (of_int k) = Finite s (of_int k)"
proof (cases "k = 0")
  case True
  then show ?thesis by (simp add: round_double_def)
next
  case False
  with assms have kpos: "0 < k" by simp
  define q :: rat where "q = of_int k"
  have qpos: "0 < q" using kpos by (simp add: q_def)
  define e where "e = ilog2 q"
  have e1: "2 powi e \<le> q" and e2: "q < 2 powi (e + 1)"
    unfolding e_def using ilog2_bounds [OF qpos] by simp_all
  have "q < of_int (2 ^ 53)" unfolding q_def using assms(2) by (simp only: of_int_less_iff)
  then have "(2 :: rat) powi e < 2 powi 53" using e1 by simp
  then have e53: "e < 53" by (rule powi2_less_cancel)
  have "of_int 1 \<le> q" unfolding q_def using kpos by (simp only: of_int_le_iff)
  then have "(2 :: rat) powi 0 < 2 powi (e + 1)" using e2 by simp
  then have e0: "0 < e + 1" by (rule powi2_less_cancel)
  then have m: "max e (- 1022) = e" by simp
  define j where "j = nat (52 - e)"
  define ulp :: rat where "ulp = 2 powi (e - 52)"
  have ulp: "ulp = 1 / 2 ^ j"
    using e53 by (simp add: ulp_def j_def power_int_def inverse_eq_divide power_one_over [symmetric] del: power_one_over)
  have "q / ulp = of_int (k * 2 ^ j)" by (simp add: ulp q_def)
  then have "rne (q / ulp) = k * 2 ^ j" by (simp only: rne_of_int)
  then have r: "of_int (rne (q / ulp)) * ulp = q" by (simp add: ulp q_def)
  have "q < 2 powi 1024" using \<open>q < of_int (2 ^ 53)\<close> by simp
  then show ?thesis
    using qpos r
    by (simp add: round_double_def Let_def m e_def [symmetric] ulp_def [symmetric] q_def [symmetric])
qed

lemma double_of_int_exact:
  "\<bar>k\<bar> < 2 ^ 53 \<Longrightarrow> double_of_int k = Finite (k < 0) (of_int \<bar>k\<bar>)"
  unfolding double_of_int_def by (rule round_double_int_exact) simp_all

lemma round_double_zero [simp]: "round_double s 0 = Finite s 0"
  by (simp add: round_double_def)

lemma approxI:
  "0 < y \<Longrightarrow> y * (1 - eps) ^ k \<le> v \<Longrightarrow> v * (1 - eps) ^ k \<le> y \<Longrightarrow> approx k (Finite False v) y"
  by (simp add: approx_def)

lemma approxE:
  assumes "approx k d y"
  obtains v where "d = Finite False v" and "0 < y" and "y * (1 - eps) ^ k \<le> v"
    and "v * (1 - eps) ^ k \<le> y"
  using assms by (cases d) (auto simp: approx_def)

lemma eps_bounds: "0 < eps" "eps < 1" "0 < 1 - eps" "1 - eps < 1"
  by (simp_all add: eps_def)

lemma bernoulli_rat: "0 \<le> x \<Longrightarrow> x \<le> 1 \<Longrightarrow> 1 - of_nat n * x \<le> (1 - x :: rat) ^ n"
proof (induction n)
  case 0
  show ?case by simp
next
  case (Suc n)
  have "1 - of_nat (Suc n) * x \<le> (1 - x) * (1 - of_nat n * x)"
    using Suc.prems by (simp add: algebra_simps)
  also have "\<dots> \<le> (1 - x) * (1 - x) ^ n"
    using Suc by (intro mult_left_mono) simp_all
  finally show ?case by simp
qed

lemma shrink_pos: "0 < (1 - eps) ^ k"
  using eps_bounds by simp

lemma shrink_mult_nonneg: "0 < y \<Longrightarrow> 0 \<le> y * (1 - eps) ^ k"
  using shrink_pos [of k] by simp

lemma shrink_le_1: "(1 - eps) ^ k \<le> 1"
  using eps_bounds by (intro power_le_one) simp_all

lemma shrink_half: 
  assumes "k \<le> 2 ^ 52" 
  shows "1 / 2 \<le> (1 - eps) ^ k"
proof -
  have "(of_nat k :: rat) \<le> of_nat (2 ^ 52)" using assms by (simp only: of_nat_le_iff)
  then have "of_nat k * eps \<le> 2 ^ 52 * eps" using eps_bounds(1) by (intro mult_right_mono) simp_all
  also have "\<dots> = 1 / 2" by (simp add: eps_def)
  finally have "1 / 2 \<le> 1 - of_nat k * eps" by simp
  also have "\<dots> \<le> (1 - eps) ^ k" using eps_bounds by (intro bernoulli_rat) simp_all
  finally show ?thesis .
qed

lemma shrink_antimono: "k \<le> k' \<Longrightarrow> (1 - eps) ^ k' \<le> (1 - eps) ^ k"
  using eps_bounds by (intro power_decreasing) simp_all

lemma approx_mono:
  assumes "approx k d y" and "k \<le> k'"
  shows "approx k' d y"
proof -
  from assms(1) obtain v where d: "d = Finite False v" and y: "0 < y"
    and l: "y * (1 - eps) ^ k \<le> v" and u: "v * (1 - eps) ^ k \<le> y"
    by (rule approxE)
  have vpos: "0 < v" using l y shrink_pos [of k] by (meson less_le_trans mult_pos_pos)
  have "y * (1 - eps) ^ k' \<le> y * (1 - eps) ^ k"
    using y shrink_antimono [OF assms(2)] by (intro mult_left_mono) simp_all
  moreover have "v * (1 - eps) ^ k' \<le> v * (1 - eps) ^ k"
    using vpos shrink_antimono [OF assms(2)] by (intro mult_left_mono) simp_all
  ultimately show ?thesis unfolding d using y l u by (intro approxI) linarith+
qed

lemma approx_pos:
  assumes "approx k (Finite s v) y"
  shows "\<not> s" "0 < v" "0 < y"
proof -
  from assms show "\<not> s" "0 < y" by (simp_all add: approx_def)
  from assms have "y * (1 - eps) ^ k \<le> v" by (simp add: approx_def)
  moreover have "0 < y * (1 - eps) ^ k" using \<open>0 < y\<close> shrink_pos by (intro mult_pos_pos)
  ultimately show "0 < v" by linarith
qed

text \<open>Rounding a value that is within k steps of y gives a value within k + 1 steps.\<close>

lemma approx_round:
  assumes y: "0 < y" and l: "y * (1 - eps) ^ k \<le> q" and u: "q * (1 - eps) ^ k \<le> y"
    and k: "k \<le> 2 ^ 52" and lo: "2 powi (- 1021) \<le> y" and hi: "y \<le> 2 powi 1022"
  shows "approx (Suc k) (round_double False q) y"
proof -
  let ?h = "(1 - eps) ^ k"
  have h: "1 / 2 \<le> ?h" using k by (rule shrink_half)
  have hpos: "0 < ?h" by (rule shrink_pos)
  have "2 powi (- 1022) \<le> (2 :: rat) powi (- 1021) * (1 / 2)" by simp
  also have "\<dots> \<le> y * ?h" using lo h y by (intro mult_mono) simp_all
  also have "\<dots> \<le> q" by (rule l)
  finally have qlo: "2 powi (- 1022) \<le> q" .
  then have qpos: "0 < q" using powi2_pos [of "- 1022"] by linarith
  have "q * (1 / 2) \<le> q * ?h" using qpos h by (intro mult_left_mono) simp_all
  also have "\<dots> \<le> y" by (rule u)
  also have "\<dots> \<le> 2 powi 1022" by (rule hi)
  finally have "q \<le> 2 * 2 powi 1022" by simp
  also have "\<dots> \<le> 2 powi 1023" by simp
  finally have qhi: "q \<le> 2 powi 1023" .
  from round_double_normal [OF qlo qhi, of False]
  obtain r where r: "round_double False q = Finite False r" and err: "\<bar>r - q\<bar> \<le> eps * q"
    by blast
  have r1: "q * (1 - eps) \<le> r" using err by (simp add: algebra_simps abs_le_iff)
  have "r * (1 - eps) \<le> (q + eps * q) * (1 - eps)"
    using err eps_bounds by (intro mult_right_mono) (simp_all add: abs_le_iff)
  also have "\<dots> = q - eps * eps * q" by (simp add: algebra_simps)
  also have "\<dots> \<le> q" using qpos eps_bounds by simp
  finally have r2: "r * (1 - eps) \<le> q" .
  have "y * (1 - eps) ^ Suc k = (y * ?h) * (1 - eps)" by simp
  also have "\<dots> \<le> q * (1 - eps)" using l eps_bounds by (intro mult_right_mono) simp_all
  also have "\<dots> \<le> r" by (rule r1)
  finally have a: "y * (1 - eps) ^ Suc k \<le> r" .
  have "r * (1 - eps) ^ Suc k = (r * (1 - eps)) * ?h" by simp
  also have "\<dots> \<le> q * ?h" using r2 hpos by (intro mult_right_mono) simp_all
  also have "\<dots> \<le> y" by (rule u)
  finally have b: "r * (1 - eps) ^ Suc k \<le> y" .
  show ?thesis unfolding r using y a b by (rule approxI)
qed

lemma approx_fmul:
  assumes a: "approx ka a ya" and b: "approx kb b yb"
    and k: "ka + kb \<le> 2 ^ 52"
    and lo: "2 powi (- 1021) \<le> ya * yb" and hi: "ya * yb \<le> 2 powi 1022"
  shows "approx (Suc (ka + kb)) (fmul a b) (ya * yb)"
proof -
  from a obtain va where da: "a = Finite False va" and ya: "0 < ya"
    and la: "ya * (1 - eps) ^ ka \<le> va" and ua: "va * (1 - eps) ^ ka \<le> ya"
    by (rule approxE)
  from b obtain vb where db: "b = Finite False vb" and yb: "0 < yb"
    and lb: "yb * (1 - eps) ^ kb \<le> vb" and ub: "vb * (1 - eps) ^ kb \<le> yb"
    by (rule approxE)
  have va: "0 < va" using approx_pos(2) a da by simp
  have vb: "0 < vb" using approx_pos(2) b db by simp
  have "(ya * (1 - eps) ^ ka) * (yb * (1 - eps) ^ kb) \<le> va * vb"
    using la lb ya yb va vb by (intro mult_mono) (simp_all add: shrink_mult_nonneg)
  then have l: "(ya * yb) * (1 - eps) ^ (ka + kb) \<le> va * vb"
    by (simp add: power_add algebra_simps)
  have "(va * (1 - eps) ^ ka) * (vb * (1 - eps) ^ kb) \<le> ya * yb"
    using ua ub ya yb va vb by (intro mult_mono) (simp_all add: shrink_mult_nonneg)
  then have u: "(va * vb) * (1 - eps) ^ (ka + kb) \<le> ya * yb"
    by (simp add: power_add algebra_simps)
  have "approx (Suc (ka + kb)) (round_double False (va * vb)) (ya * yb)"
    using _ l u k lo hi by (rule approx_round) (use ya yb in simp)
  then show ?thesis by (simp add: da db)
qed

lemma approx_fdiv:
  assumes a: "approx ka a ya" and b: "approx kb b yb"
    and k: "ka + kb \<le> 2 ^ 52"
    and lo: "2 powi (- 1021) \<le> ya / yb" and hi: "ya / yb \<le> 2 powi 1022"
  shows "approx (Suc (ka + kb)) (fdiv a b) (ya / yb)"
proof -
  from a obtain va where da: "a = Finite False va" and ya: "0 < ya"
    and la: "ya * (1 - eps) ^ ka \<le> va" and ua: "va * (1 - eps) ^ ka \<le> ya"
    by (rule approxE)
  from b obtain vb where db: "b = Finite False vb" and yb: "0 < yb"
    and lb: "yb * (1 - eps) ^ kb \<le> vb" and ub: "vb * (1 - eps) ^ kb \<le> yb"
    by (rule approxE)
  have va: "0 < va" using approx_pos(2) a da by simp
  have vb: "0 < vb" using approx_pos(2) b db by simp
  have "(ya * (1 - eps) ^ ka) * (vb * (1 - eps) ^ kb) \<le> va * yb"
    using la ub ya yb va vb by (intro mult_mono) (simp_all add: shrink_mult_nonneg)
  then have "((ya / yb) * (1 - eps) ^ (ka + kb)) * (yb * vb) \<le> (va / vb) * (yb * vb)"
    using yb vb by (simp add: power_add algebra_simps)
  then have l: "(ya / yb) * (1 - eps) ^ (ka + kb) \<le> va / vb"
    using yb vb by (simp only: mult_le_cancel_right) simp
  have "(va * (1 - eps) ^ ka) * (yb * (1 - eps) ^ kb) \<le> ya * vb"
    using ua lb ya yb va vb by (intro mult_mono) (simp_all add: shrink_mult_nonneg)
  then have "((va / vb) * (1 - eps) ^ (ka + kb)) * (yb * vb) \<le> (ya / yb) * (yb * vb)"
    using yb vb by (simp add: power_add algebra_simps)
  then have u: "(va / vb) * (1 - eps) ^ (ka + kb) \<le> ya / yb"
    using yb vb by (simp only: mult_le_cancel_right) simp
  have "approx (Suc (ka + kb)) (round_double False (va / vb)) (ya / yb)"
    using _ l u k lo hi by (rule approx_round) (use ya yb in simp)
  then show ?thesis using vb by (simp add: da db)
qed

lemma approx_int:
  "0 < k \<Longrightarrow> k < 2 ^ 53 \<Longrightarrow> approx 0 (double_of_int k) (of_int k)"
  by (simp add: double_of_int_exact approx_def)

section \<open>The partial factorial and the probability formula\<close>

lemma falling_Suc: "falling n (Suc k) = falling n k * (n - k)"
  by (rule falling.simps(2))


lemma falling_pos: "k \<le> n \<Longrightarrow> 0 < falling n k"
  by (induction k) (simp_all add: falling_Suc)

lemma falling_zero: "n < k \<Longrightarrow> falling n k = 0"
proof (induction k)
  case 0
  then show ?case by simp
next
  case (Suc k)
  then show ?case by (cases "n = k") (simp_all add: falling_Suc)
qed

lemma falling_le_power: "falling n k \<le> n ^ k"
proof (induction k)
  case 0
  show ?case by simp
next
  case (Suc k)
  have "falling n k * (n - k) \<le> n ^ k * n" using Suc by (intro mult_mono) simp_all
  then show ?case by (simp add: falling_Suc mult.commute)
qed

lemma falling_mono: "Suc k \<le> n \<Longrightarrow> falling n k \<le> falling n (Suc k)"
  by (auto simp add: falling_Suc)

lemma falling_fact: "k \<le> n \<Longrightarrow> falling n k * fact (n - k) = fact n"
proof (induction k)
  case 0
  show ?case by simp
next
  case (Suc k)
  then have "n - k = Suc (n - Suc k)" by simp
  then have "fact (n - k) = (n - k) * fact (n - Suc k)" by (metis fact_Suc of_nat_id)
  then have "falling n (Suc k) * fact (n - Suc k) = falling n k * fact (n - k)"
    by (simp add: falling_Suc)
  with Suc show ?case by simp
qed

lemma falling_binomial: "k \<le> n \<Longrightarrow> falling n k = (n choose k) * fact k"
proof -
  assume kn: "k \<le> n"
  have "falling n k * fact (n - k) = (n choose k) * fact k * fact (n - k)"
    using falling_fact [OF kn] binomial_fact_lemma [OF kn] by (simp add: mult_ac)
  then show ?thesis by simp
qed

lemma calcPartialFactorial_loop_foldl:
  "i \<le> wNumTerms \<Longrightarrow>
   calcPartialFactorial_loop wN wNumTerms i fResult
     = foldl (pf_step (unat wN)) fResult [unat i..<unat wNumTerms]"
proof (induction wN wNumTerms i fResult rule: calcPartialFactorial_loop.induct)
  case (1 wN wNumTerms i fResult)
  show ?case
  proof (cases "i < wNumTerms")
    case True
    then have lt: "unat i < unat wNumTerms" by (simp add: word_less_nat_alt)
    moreover have "unat wNumTerms < 2 ^ LENGTH(16)" by (rule unsigned_less)
    ultimately have "unat i + 1 < 65536" by simp
    then have suc: "unat (i + 1) = Suc (unat i)" by (simp add: unat_word_ariths)
    then have le: "i + 1 \<le> wNumTerms" using lt by (simp add: word_le_nat_alt)
    have "calcPartialFactorial_loop wN wNumTerms i fResult
        = calcPartialFactorial_loop wN wNumTerms (i + 1) (fmul fResult (double_of_int (uint wN - uint i)))"
      using True by (subst calcPartialFactorial_loop.simps) simp
    also have "\<dots> = foldl (pf_step (unat wN)) (fmul fResult (double_of_int (uint wN - uint i)))
                        [unat (i + 1)..<unat wNumTerms]"
      using True le by (rule "1.IH")
    also have "\<dots> = foldl (pf_step (unat wN)) fResult [unat i..<unat wNumTerms]"
      using lt by (simp add: suc upt_conv_Cons pf_step_def)
    finally show ?thesis .
  next
    case False
    with "1.prems" have "i = wNumTerms" by simp
    then show ?thesis by (subst calcPartialFactorial_loop.simps) simp
  qed
qed

lemma calcPartialFactorial_foldl:
  "calcPartialFactorial wN wNumTerms
     = foldl (pf_step (unat wN)) (Finite False 1) [0..<unat wNumTerms]"
  unfolding calcPartialFactorial_def
  by (subst calcPartialFactorial_loop_foldl) simp_all

lemma pf_foldl_Suc:
  "foldl (pf_step n) a [0..<Suc k] = fmul (foldl (pf_step n) a [0..<k]) (double_of_int (int n - int k))"
  by (simp add: pf_step_def)

lemma pf_foldl_exact:
  "k \<le> n \<Longrightarrow> n < 2 ^ 53 \<Longrightarrow> falling n k < 2 ^ 53 \<Longrightarrow>
   foldl (pf_step n) (Finite False 1) [0..<k] = Finite False (of_nat (falling n k))"
proof (induction k)
  case 0
  show ?case by simp
next
  case (Suc k)
  have "falling n k \<le> falling n (Suc k)" using Suc.prems by (intro falling_mono)
  with Suc have IH: "foldl (pf_step n) (Finite False 1) [0..<k] = Finite False (of_nat (falling n k))"
    by simp
  have "\<bar>int n - int k\<bar> < 2 ^ 53" using Suc.prems by simp
  then have f: "double_of_int (int n - int k) = Finite False (of_nat (n - k))"
    using Suc.prems by (simp add: double_of_int_exact of_nat_diff)
  have "(of_nat (falling n k) :: rat) * of_nat (n - k) = of_int (int (falling n (Suc k)))"
    by (simp add: falling_Suc)
  moreover have "round_double False (of_int (int (falling n (Suc k)))) = Finite False (of_int (int (falling n (Suc k))))"
    using Suc.prems by (intro round_double_int_exact) simp_all
  ultimately show ?case
    unfolding pf_foldl_Suc IH f by simp
qed

lemma pf_foldl_approx:
  "k \<le> n \<Longrightarrow> n < 2 ^ 53 \<Longrightarrow> k \<le> 2 ^ 51 \<Longrightarrow> of_nat (falling n k) \<le> (2 :: rat) powi 1022 \<Longrightarrow>
   approx k (foldl (pf_step n) (Finite False 1) [0..<k]) (of_nat (falling n k))"
proof (induction k)
  case 0
  show ?case by (simp add: approx_def)
next
  case (Suc k)
  have m: "falling n k \<le> falling n (Suc k)" using Suc.prems by (intro falling_mono)
  then have "(of_nat (falling n k) :: rat) \<le> of_nat (falling n (Suc k))" by (simp only: of_nat_le_iff)
  with Suc have IH: "approx k (foldl (pf_step n) (Finite False 1) [0..<k]) (of_nat (falling n k))"
    by simp
  have "approx 0 (double_of_int (int n - int k)) (of_int (int n - int k))"
    using Suc.prems by (intro approx_int) simp_all
  then have f: "approx 0 (double_of_int (int n - int k)) (of_nat (n - k))"
    using Suc.prems by (simp add: of_nat_diff)
  have p: "(of_nat (falling n k) :: rat) * of_nat (n - k) = of_nat (falling n (Suc k))"
    by (simp add: falling_Suc)
  have "0 < falling n (Suc k)" using Suc.prems by (intro falling_pos)
  then have "(1 :: rat) \<le> of_nat (falling n (Suc k))" by simp
  then have lo: "(2 :: rat) powi (- 1021) \<le> of_nat (falling n (Suc k))"
    by (rule order_trans [rotated]) simp
  have "approx (Suc (k + 0)) (fmul (foldl (pf_step n) (Finite False 1) [0..<k]) (double_of_int (int n - int k)))
          (of_nat (falling n k) * of_nat (n - k))"
    using IH f Suc.prems lo unfolding p [symmetric] by (intro approx_fmul) simp_all
  then show ?case unfolding pf_foldl_Suc p by simp
qed

lemma unat_of_nat_word16: "n \<le> 65535 \<Longrightarrow> unat (of_nat n :: WORD) = n"
  by (simp add: unat_of_nat)

lemma unat_of_nat_dword: "n \<le> 65535 \<Longrightarrow> unat (of_nat n :: DWORD) = n"
  by (simp add: unat_of_nat)

lemma ucast_of_nat_dword: "n \<le> 65535 \<Longrightarrow> (ucast (of_nat n :: DWORD) :: WORD) = of_nat n"
  by (simp add: unsigned_of_nat take_bit_nat_eq_self)

lemma of_nat_le_dword: "r \<le> n \<Longrightarrow> n \<le> 65535 \<Longrightarrow> (of_nat r :: DWORD) \<le> of_nat n"
  by (simp add: word_le_nat_alt unat_of_nat)

lemma of_nat_diff_dword: "r \<le> n \<Longrightarrow> (of_nat n :: DWORD) - of_nat r = of_nat (n - r)"
  by (simp add: of_nat_diff)

lemma calcCombinations_nat:
  assumes "n \<le> 20" and "r \<le> n"
  shows "calcCombinations (of_nat n) (of_nat r) = Some (of_nat (n choose r))"
proof -
  have "unat (of_nat n :: DWORD) \<le> 20" using assms by (simp add: unat_of_nat_dword)
  moreover have "(of_nat r :: DWORD) \<le> of_nat n" using assms by (intro of_nat_le_dword) simp_all
  ultimately have "calcCombinations (of_nat n) (of_nat r)
      = Some (of_nat (unat (of_nat n :: DWORD) choose unat (of_nat r :: DWORD)))"
    by (rule calcCombinations_exact)
  then show ?thesis using assms by (simp add: unat_of_nat_dword)
qed

lemma binomial_le_2_20: "n \<le> 20 \<Longrightarrow> n choose r \<le> 2 ^ 20"
proof -
  assume n: "n \<le> 20"
  have "n choose r \<le> 2 ^ n" by (rule binomial_le_pow2)
  also have "\<dots> \<le> (2 :: nat) ^ 20" using n by (intro power_increasing) simp_all
  finally show ?thesis .
qed

lemma unat_binomial_dword: "n \<le> 20 \<Longrightarrow> unat (of_nat (n choose r) :: DWORD) = n choose r"
proof -
  assume "n \<le> 20"
  then have "n choose r \<le> 2 ^ 20" by (rule binomial_le_2_20)
  then have "n choose r < 2 ^ LENGTH(32)" by simp
  then show ?thesis by (simp add: unat_of_nat take_bit_nat_eq_self)
qed

lemma uint_binomial_dword: "n \<le> 20 \<Longrightarrow> uint (of_nat (n choose r) :: DWORD) = int (n choose r)"
  unfolding uint_nat by (simp only: unat_binomial_dword)

lemma calcKenoProbability_nat:
  assumes "n \<le> 20" and "r \<le> n"
  shows "calcKenoProbability (of_nat n) (of_nat r)
     = Some (fdiv (fmul (fmul (double_of_int (int (n choose r)))
                              (calcPartialFactorial 20 (of_nat r)))
                        (calcPartialFactorial 60 (of_nat (n - r))))
                  (calcPartialFactorial 80 (of_nat n)))"
proof -
  have c: "calcCombinations (of_nat n) (of_nat r) = Some (of_nat (n choose r))"
    by (rule calcCombinations_nat [OF assms])
  have u: "uint (of_nat (n choose r) :: DWORD) = int (n choose r)"
    by (rule uint_binomial_dword [OF assms(1)])
  have a1: "(ucast (of_nat r :: DWORD) :: WORD) = of_nat r"
    using assms by (intro ucast_of_nat_dword) simp
  have a2: "(ucast ((of_nat n :: DWORD) - of_nat r) :: WORD) = of_nat (n - r)"
    unfolding of_nat_diff_dword [OF assms(2)] using assms by (intro ucast_of_nat_dword) simp
  have a3: "(ucast (of_nat n :: DWORD) :: WORD) = of_nat n"
    using assms by (intro ucast_of_nat_dword) simp
  have k1: "(word_of_int g_MAX_SELECTABLE_BALLS :: WORD) = 20"
    by (simp add: g_MAX_SELECTABLE_BALLS_def)
  have k2: "(word_of_int (g_TOTAL_BALLS - g_MAX_SELECTABLE_BALLS) :: WORD) = 60"
    by (simp add: g_MAX_SELECTABLE_BALLS_def g_TOTAL_BALLS_def)
  have k3: "(word_of_int g_TOTAL_BALLS :: WORD) = 80"
    by (simp add: g_TOTAL_BALLS_def)
  show ?thesis
    unfolding calcKenoProbability_def c
    by (simp only: option.case Let_def u a1 a2 a3 k1 k2 k3)
qed

lemma falling_bound:
  assumes "a \<le> 80" and "k \<le> 20"
  shows "(of_nat (falling a k) :: rat) \<le> 2 ^ 200"
proof -
  have "falling a k \<le> a ^ k" by (rule falling_le_power)
  also have "\<dots> \<le> 80 ^ k" using assms(1) by (intro power_mono) simp_all
  also have "\<dots> \<le> (80 :: nat) ^ 20" using assms(2) by (intro power_increasing) simp_all
  also have "\<dots> \<le> 2 ^ 200" by simp
  finally have "falling a k \<le> 2 ^ 200" .
  then have "(of_nat (falling a k) :: rat) \<le> of_nat (2 ^ 200)" by (simp only: of_nat_le_iff)
  then show ?thesis by simp
qed

lemma falling_ge_1: "k \<le> a \<Longrightarrow> (1 :: rat) \<le> of_nat (falling a k)"
  using falling_pos [of k a] by simp

lemma calcPartialFactorial_approx:
  assumes "k \<le> a" and "a \<le> 80" and "k \<le> 20"
  shows "approx k (calcPartialFactorial (of_nat a) (of_nat k)) (of_nat (falling a k))"
proof -
  have "(of_nat (falling a k) :: rat) \<le> 2 ^ 200" using assms(2,3) by (rule falling_bound)
  also have "\<dots> \<le> 2 powi 1022" by simp
  finally have "approx k (foldl (pf_step a) (Finite False 1) [0..<k]) (of_nat (falling a k))"
    using assms by (intro pf_foldl_approx) simp_all
  then show ?thesis using assms by (simp add: calcPartialFactorial_foldl unat_of_nat_word16)
qed

lemma hypergeometric_falling:
  assumes "r \<le> n" and "n \<le> 20"
  shows "of_nat (n choose r) * of_nat (falling 20 r) * of_nat (falling 60 (n - r)) / of_nat (falling 80 n)
       = hypergeometric n r"
proof -
  have 1: "falling 20 r = (20 choose r) * fact r" using assms by (intro falling_binomial) simp
  have 2: "falling 60 (n - r) = (60 choose (n - r)) * fact (n - r)"
    using assms by (intro falling_binomial) simp
  have 3: "falling 80 n = (80 choose n) * fact n" using assms by (intro falling_binomial) simp
  have "(n choose r) * (fact r * fact (n - r)) = (fact n :: nat)"
    using binomial_fact_lemma [OF assms(1)] by (simp add: mult_ac)
  then have "(n choose r) * falling 20 r * falling 60 (n - r)
      = (20 choose r) * (60 choose (n - r)) * fact n"
    unfolding 1 2 by (simp add: mult_ac)
  then have "(of_nat ((n choose r) * falling 20 r * falling 60 (n - r)) :: rat)
      = of_nat ((20 choose r) * (60 choose (n - r)) * fact n)"
    by (simp only:)
  then have "(of_nat (n choose r) * of_nat (falling 20 r) * of_nat (falling 60 (n - r)) :: rat)
      = of_nat (20 choose r) * of_nat (60 choose (n - r)) * fact n"
    by (simp only: of_nat_mult of_nat_fact)
  then show ?thesis
    unfolding hypergeometric_def 3 by simp
qed

lemma calcKenoProbability_approx:
  assumes n: "n \<le> 20" and r: "r \<le> n"
  shows "\<exists>d. calcKenoProbability (of_nat n) (of_nat r) = Some d \<and> approx (2 * n + 3) d (hypergeometric n r)"
proof -
  let ?C = "of_nat (n choose r) :: rat"
  let ?f1 = "of_nat (falling 20 r) :: rat"
  let ?f2 = "of_nat (falling 60 (n - r)) :: rat"
  let ?f3 = "of_nat (falling 80 n) :: rat"
  have Cpos: "0 < n choose r" using r by (rule zero_less_binomial)
  then have "1 \<le> n choose r" by linarith
  then have "(of_nat 1 :: rat) \<le> ?C" by (simp only: of_nat_le_iff)
  then have C1: "1 \<le> ?C" by simp
  have "n choose r \<le> 2 ^ 20" using n by (rule binomial_le_2_20)
  then have "?C \<le> of_nat (2 ^ 20)" by (simp only: of_nat_le_iff)
  then have C2: "?C \<le> 2 ^ 20" by simp
  have f1a: "1 \<le> ?f1" by (rule falling_ge_1) (use n r in simp)
  have f1b: "?f1 \<le> 2 ^ 200" by (rule falling_bound) (use n r in simp_all)
  note f1 = f1a f1b
  have f2a: "1 \<le> ?f2" by (rule falling_ge_1) (use n r in simp)
  have f2b: "?f2 \<le> 2 ^ 200" by (rule falling_bound) (use n r in simp_all)
  note f2 = f2a f2b
  have f3a: "1 \<le> ?f3" by (rule falling_ge_1) (use n r in simp)
  have f3b: "?f3 \<le> 2 ^ 200" by (rule falling_bound) (use n r in simp_all)
  note f3 = f3a f3b
  have aC: "approx 0 (double_of_int (int (n choose r))) ?C"
  proof -
    have "int (n choose r) < 2 ^ 53"
      using \<open>n choose r \<le> 2 ^ 20\<close> by simp
    with Cpos have "approx 0 (double_of_int (int (n choose r))) (of_int (int (n choose r)))"
      by (intro approx_int) simp_all
    then show ?thesis by simp
  qed
  have a1: "approx r (calcPartialFactorial 20 (of_nat r)) ?f1"
    using calcPartialFactorial_approx [of r 20] n r by simp
  have a2: "approx (n - r) (calcPartialFactorial 60 (of_nat (n - r))) ?f2"
    using calcPartialFactorial_approx [of "n - r" 60] n r by simp
  have a3: "approx n (calcPartialFactorial 80 (of_nat n)) ?f3"
    using calcPartialFactorial_approx [of n 80] n r by simp
  have "1 * 1 \<le> ?C * ?f1" using C1 f1a by (intro mult_mono) simp_all
  then have b1: "1 \<le> ?C * ?f1" by simp
  have "?C * ?f1 \<le> 2 ^ 20 * 2 ^ 200" using C1 C2 f1 by (intro mult_mono) simp_all
  then have b1': "?C * ?f1 \<le> 2 ^ 220" by simp
  have m1: "approx (Suc (0 + r)) (fmul (double_of_int (int (n choose r))) (calcPartialFactorial 20 (of_nat r)))
              (?C * ?f1)"
  proof (rule approx_fmul [OF aC a1])
    show "0 + r \<le> 2 ^ 52" using n r by simp
    show "2 powi (- 1021) \<le> ?C * ?f1" using b1 by (rule order_trans [rotated]) simp
    show "?C * ?f1 \<le> 2 powi 1022" using b1' by (rule order_trans) simp
  qed
  have "1 * 1 \<le> ?C * ?f1 * ?f2" using b1 f2a by (intro mult_mono) simp_all
  then have b2: "1 \<le> ?C * ?f1 * ?f2" by simp
  have "?C * ?f1 * ?f2 \<le> 2 ^ 220 * 2 ^ 200" using b1 b1' f2 by (intro mult_mono) simp_all
  then have b2': "?C * ?f1 * ?f2 \<le> 2 ^ 420" by simp
  have m2: "approx (Suc (Suc (0 + r) + (n - r)))
              (fmul (fmul (double_of_int (int (n choose r))) (calcPartialFactorial 20 (of_nat r)))
                    (calcPartialFactorial 60 (of_nat (n - r))))
              (?C * ?f1 * ?f2)"
  proof (rule approx_fmul [OF m1 a2])
    show "Suc (0 + r) + (n - r) \<le> 2 ^ 52" using n r by simp
    show "2 powi (- 1021) \<le> ?C * ?f1 * ?f2" using b2 by (rule order_trans [rotated]) simp
    show "?C * ?f1 * ?f2 \<le> 2 powi 1022" using b2' by (rule order_trans) simp
  qed
  have pos3: "0 < ?f3" using f3 by simp
  have "?C * ?f1 * ?f2 / ?f3 \<le> ?C * ?f1 * ?f2 / 1"
    using f3 b2 by (intro divide_left_mono) simp_all
  with b2' have b3': "?C * ?f1 * ?f2 / ?f3 \<le> 2 ^ 420" by simp
  have "1 / 2 ^ 200 \<le> 1 / ?f3" using f3 pos3 by (intro divide_left_mono) simp_all
  also have "\<dots> \<le> ?C * ?f1 * ?f2 / ?f3" using b2 pos3 by (intro divide_right_mono) simp_all
  finally have b3: "1 / 2 ^ 200 \<le> ?C * ?f1 * ?f2 / ?f3" .
  have m3: "approx (Suc (Suc (Suc (0 + r) + (n - r)) + n))
              (fdiv (fmul (fmul (double_of_int (int (n choose r))) (calcPartialFactorial 20 (of_nat r)))
                    (calcPartialFactorial 60 (of_nat (n - r)))) (calcPartialFactorial 80 (of_nat n)))
              (?C * ?f1 * ?f2 / ?f3)"
  proof (rule approx_fdiv [OF m2 a3])
    show "Suc (Suc (0 + r) + (n - r)) + n \<le> 2 ^ 52" using n r by simp
    show "2 powi (- 1021) \<le> ?C * ?f1 * ?f2 / ?f3" using b3 by (rule order_trans [rotated]) (simp add: power_int_minus_divide)
    show "?C * ?f1 * ?f2 / ?f3 \<le> 2 powi 1022" using b3' by (rule order_trans) simp
  qed
  have k: "Suc (Suc (Suc (0 + r) + (n - r)) + n) = 2 * n + 3" using r by simp
  from m3 have "approx (2 * n + 3)
      (fdiv (fmul (fmul (double_of_int (int (n choose r))) (calcPartialFactorial 20 (of_nat r)))
                  (calcPartialFactorial 60 (of_nat (n - r)))) (calcPartialFactorial 80 (of_nat n)))
      (hypergeometric n r)"
    unfolding k hypergeometric_falling [OF r n] .
  with calcKenoProbability_nat [OF n r] show ?thesis by blast
qed

lemma approx_error:
  assumes a: "approx K d y" and K: "K \<le> 2 ^ 51"
  shows "is_finite d \<and> \<bar>valof d - y\<bar> \<le> of_nat K * y / 2 ^ 52"
proof -
  from a obtain v where d: "d = Finite False v" and y: "0 < y"
    and l: "y * (1 - eps) ^ K \<le> v" and u: "v * (1 - eps) ^ K \<le> y"
    by (rule approxE)
  have v: "0 < v" using approx_pos(2) a d by simp
  define t :: rat where "t = of_nat K * eps"
  have t0: "0 \<le> t" using eps_bounds by (simp add: t_def)
  have h: "1 - t \<le> (1 - eps) ^ K"
    unfolding t_def using eps_bounds by (intro bernoulli_rat) simp_all
  have "y * (1 - t) \<le> y * (1 - eps) ^ K" using h y by (intro mult_left_mono) simp_all
  with l have lower: "y - y * t \<le> v" by (simp add: algebra_simps)
  have "K \<le> 2 ^ 52" using K by (rule order_trans) simp
  then have "1 / 2 \<le> (1 - eps) ^ K" by (rule shrink_half)
  then have "v * (1 / 2) \<le> v * (1 - eps) ^ K" using v by (intro mult_left_mono) simp_all
  with u have v2: "v \<le> 2 * y" by simp
  have "v * (1 - t) \<le> v * (1 - eps) ^ K" using h v by (intro mult_left_mono) simp_all
  with u have "v - v * t \<le> y" by (simp add: algebra_simps)
  moreover have "v * t \<le> (2 * y) * t" using v2 t0 by (intro mult_right_mono) simp_all
  then have "v * t \<le> 2 * (y * t)" by simp
  ultimately have upper: "v \<le> y + 2 * (y * t)" by linarith
  define B where "B = of_nat K * y / 2 ^ 52"
  have "2 * (y * t) = B" by (simp add: t_def eps_def B_def)
  moreover have "0 \<le> y * t" using y t0 by simp
  ultimately have "\<bar>v - y\<bar> \<le> B" using lower upper by linarith
  then have "\<bar>v - y\<bar> \<le> of_nat K * y / 2 ^ 52" unfolding B_def .
  then show ?thesis by (simp add: d)
qed

lemma falling_ge_power: "j \<le> k \<Longrightarrow> (n - k) ^ j \<le> falling n j"
proof (induction j)
  case 0
  show ?case by simp
next
  case (Suc j)
  then have "(n - k) ^ j * (n - k) \<le> falling n j * (n - j)"
    by (intro mult_mono) simp_all
  then show ?case by (simp add: falling_Suc mult.commute)
qed

lemma pf_foldl_split:
  "a \<le> b \<Longrightarrow> foldl (pf_step n) acc [0..<b] = foldl (pf_step n) (foldl (pf_step n) acc [0..<a]) [a..<b]"
  by (metis foldl_append upt_add_eq_append le_add_diff_inverse zero_le add_0)

lemma pf_foldl_Infinite:
  "b \<le> n \<Longrightarrow> n < 2 ^ 53 \<Longrightarrow> foldl (pf_step n) (Infinite False) [a..<b] = Infinite False"
proof (induction b)
  case 0
  show ?case by simp
next
  case (Suc b)
  show ?case
  proof (cases "a \<le> b")
    case True
    have "\<bar>int n - int b\<bar> < 2 ^ 53" using Suc.prems by simp
    then have f: "double_of_int (int n - int b) = Finite False (of_nat (n - b))"
      using Suc.prems by (simp add: double_of_int_exact of_nat_diff)
    have "n - b \<noteq> 0" using Suc.prems by simp
    then have "fmul (Infinite False) (double_of_int (int n - int b)) = Infinite False"
      unfolding f by simp
    then show ?thesis using True Suc by (simp add: pf_step_def)
  next
    case False
    then show ?thesis by simp
  qed
qed

lemma fmul_overflow:
  assumes "approx k a y" and "k \<le> 2 ^ 52" and "0 < x" and "2 powi 1025 \<le> y * x"
  shows "fmul a (Finite False x) = Infinite False"
proof -
  from assms(1) obtain v where d: "a = Finite False v" and y: "0 < y"
    and l: "y * (1 - eps) ^ k \<le> v"
    by (rule approxE)
  have "1 / 2 \<le> (1 - eps) ^ k" using assms(2) by (rule shrink_half)
  then have "y * (1 / 2) \<le> y * (1 - eps) ^ k" using y by (intro mult_left_mono) simp_all
  with l have "y * (1 / 2) \<le> v" by linarith
  then have "y * (1 / 2) * x \<le> v * x" using assms(3) by (intro mult_right_mono) simp_all
  moreover have "2 powi 1025 * (1 / 2) \<le> y * x * (1 / 2)" using assms(4) by (intro mult_right_mono) simp_all
  ultimately have "2 powi 1024 \<le> v * x" by simp
  then show ?thesis unfolding d by (simp add: round_double_overflow)
qed

lemma calcPartialFactorial_60000_60001: "calcPartialFactorial 60000 60001 = NaN"
proof -
  let ?n = "60000 :: nat"
  have u: "(of_nat (falling ?n 64) :: rat) \<le> 2 powi 1022"
  proof -
    have "falling ?n 64 \<le> ?n ^ 64" by (rule falling_le_power)
    also have "\<dots> \<le> 2 ^ 1022" by simp
    finally have "(of_nat (falling ?n 64) :: rat) \<le> of_nat (2 ^ 1022)" by (simp only: of_nat_le_iff)
    then show ?thesis by simp
  qed
  have a: "approx 64 (foldl (pf_step ?n) (Finite False 1) [0..<64]) (of_nat (falling ?n 64))"
    using u by (intro pf_foldl_approx) simp_all
  have l: "(2 :: rat) powi 1025 \<le> of_nat (falling ?n 64) * of_nat (?n - 64)"
  proof -
    have "(?n - 65) ^ 65 \<le> falling ?n 65" by (rule falling_ge_power) simp
    moreover have "(2 :: nat) ^ 1025 \<le> (?n - 65) ^ 65" by simp
    ultimately have "2 ^ 1025 \<le> falling ?n 65" by (rule order_trans [rotated])
    then have "(of_nat (2 ^ 1025) :: rat) \<le> of_nat (falling ?n 65)" by (simp only: of_nat_le_iff)
    moreover have "falling ?n 65 = falling ?n 64 * (?n - 64)"
      using falling_Suc [of ?n 64] by simp
    ultimately show ?thesis by simp
  qed
  have f: "double_of_int (int ?n - int 64) = Finite False (of_nat (?n - 64))"
    by (subst double_of_int_exact) simp_all
  have s65: "foldl (pf_step ?n) (Finite False 1) [0..<65] = Infinite False"
  proof -
    have "foldl (pf_step ?n) (Finite False 1) [0..<Suc 64]
        = fmul (foldl (pf_step ?n) (Finite False 1) [0..<64]) (double_of_int (int ?n - int 64))"
      by (rule pf_foldl_Suc)
    also have "\<dots> = Infinite False"
      unfolding f using a _ _ l by (rule fmul_overflow) simp_all
    finally show ?thesis by simp
  qed
  have "foldl (pf_step ?n) (Finite False 1) [0..<?n]
      = foldl (pf_step ?n) (foldl (pf_step ?n) (Finite False 1) [0..<65]) [65..<?n]"
    by (rule pf_foldl_split) simp
  also have "\<dots> = Infinite False" unfolding s65 by (rule pf_foldl_Infinite) simp_all
  finally have sn: "foldl (pf_step ?n) (Finite False 1) [0..<?n] = Infinite False" .
  have z: "double_of_int (int ?n - int ?n) = Finite False 0"
    by (subst double_of_int_exact) simp_all
  have "foldl (pf_step ?n) (Finite False 1) [0..<Suc ?n]
      = fmul (foldl (pf_step ?n) (Finite False 1) [0..<?n]) (double_of_int (int ?n - int ?n))"
    by (rule pf_foldl_Suc)
  also have "\<dots> = NaN" unfolding sn z by simp
  finally have "foldl (pf_step ?n) (Finite False 1) [0..<60001] = NaN" by simp
  then show ?thesis by (simp add: calcPartialFactorial_foldl)
qed

lemma approx_Finite:
  assumes "approx k d y"
  obtains v where "d = Finite False v" and "0 < v"
proof -
  from assms obtain v where d: "d = Finite False v" by (rule approxE)
  with assms have "0 < v" using approx_pos(2) by simp
  with d show ?thesis by (rule that)
qed

lemma pf_foldl_negative_zero:
  "n < a \<Longrightarrow> b < 2 ^ 53 \<Longrightarrow>
   foldl (pf_step n) (Finite s 0) [a..<b] = Finite (s \<noteq> odd (b - a)) 0"
proof (induction b)
  case 0
  show ?case by simp
next
  case (Suc b)
  show ?case
  proof (cases "a \<le> b")
    case True
    have "\<bar>int n - int b\<bar> < 2 ^ 53" using Suc.prems True by simp
    moreover have "int n - int b < 0" using Suc.prems True by simp
    ultimately have f: "double_of_int (int n - int b) = Finite True (of_int \<bar>int n - int b\<bar>)"
      by (simp add: double_of_int_exact)
    have IH: "foldl (pf_step n) (Finite s 0) [a..<b] = Finite (s \<noteq> odd (b - a)) 0"
      using Suc by simp
    have "foldl (pf_step n) (Finite s 0) [a..<Suc b]
        = fmul (foldl (pf_step n) (Finite s 0) [a..<b]) (double_of_int (int n - int b))"
      using True by (simp add: pf_step_def)
    also have "\<dots> = Finite ((s \<noteq> odd (b - a)) \<noteq> True) 0"
      unfolding IH f by simp
    also have "((s \<noteq> odd (b - a)) \<noteq> True) = (s \<noteq> odd (Suc b - a))"
      using True by (simp add: Suc_diff_le)
    finally show ?thesis .
  next
    case False
    then show ?thesis by simp
  qed
qed

lemma pf_foldl_through_zero:
  assumes n: "n \<le> 80" and k: "n < k" and k53: "k < 2 ^ 53"
  shows "foldl (pf_step n) (Finite False 1) [0..<k] = Finite (odd (k - Suc n)) 0"
proof -
  have "(of_nat (falling n n) :: rat) \<le> of_nat (n ^ n)"
    using falling_le_power [of n n] by (simp only: of_nat_le_iff)
  also have "n ^ n \<le> 80 ^ n" using n by (intro power_mono) simp_all
  then have "(of_nat (n ^ n) :: rat) \<le> of_nat (80 ^ n)" by (simp only: of_nat_le_iff)
  also have "(80 :: nat) ^ n \<le> 80 ^ 80" using n by (intro power_increasing) simp_all
  then have "(of_nat (80 ^ n) :: rat) \<le> of_nat (80 ^ 80)" by (simp only: of_nat_le_iff)
  also have "(of_nat (80 ^ 80) :: rat) \<le> 2 powi 1022" by simp
  finally have "approx n (foldl (pf_step n) (Finite False 1) [0..<n]) (of_nat (falling n n))"
    using n by (intro pf_foldl_approx) simp_all
  then obtain v where v: "foldl (pf_step n) (Finite False 1) [0..<n] = Finite False v"
    by (rule approx_Finite)
  have z: "double_of_int (int n - int n) = Finite False 0"
    by (subst double_of_int_exact) simp_all
  have "foldl (pf_step n) (Finite False 1) [0..<Suc n]
      = fmul (foldl (pf_step n) (Finite False 1) [0..<n]) (double_of_int (int n - int n))"
    by (rule pf_foldl_Suc)
  also have "\<dots> = Finite False 0" unfolding v z by simp
  finally have s: "foldl (pf_step n) (Finite False 1) [0..<Suc n] = Finite False 0" .
  have "foldl (pf_step n) (Finite False 1) [0..<k]
      = foldl (pf_step n) (foldl (pf_step n) (Finite False 1) [0..<Suc n]) [Suc n..<k]"
    using k by (intro pf_foldl_split) simp
  also have "\<dots> = Finite (False \<noteq> odd (k - Suc n)) 0"
    unfolding s using k53 by (intro pf_foldl_negative_zero) simp_all
  finally show ?thesis by simp
qed

lemma ucast_underflow:
  assumes "n < r" and "r \<le> 20"
  shows "unat (ucast ((of_nat n :: DWORD) - of_nat r) :: WORD) = 65536 - (r - n)"
proof -
  define d where "d = r - n"
  define T where "T = 65536 - d"
  define M where "M = 65536 * 65535 + T"
  have d: "r = n + d" "d \<le> 20" using assms by (simp_all add: d_def)
  have T: "T \<le> 65535" "T + d = 65536" using assms by (simp_all add: T_def d_def)
  have "M + r = 2 ^ 32 + n" using T d by (simp add: M_def)
  then have "(of_nat (M + r) :: DWORD) = of_nat (2 ^ 32 + n)" by (simp only:)
  then have "(of_nat M :: DWORD) + of_nat r = of_nat n" by simp
  then have e: "(of_nat n :: DWORD) - of_nat r = of_nat M" by (simp add: algebra_simps)
  have M: "M < 2 ^ 32" using T by (simp add: M_def)
  have "(ucast (of_nat M :: DWORD) :: WORD) = of_nat M"
    using M by (simp add: unsigned_of_nat take_bit_nat_eq_self)
  also have "(of_nat M :: WORD) = of_nat T" by (simp add: M_def)
  finally have "(ucast ((of_nat n :: DWORD) - of_nat r) :: WORD) = of_nat T" unfolding e .
  moreover have "unat (of_nat T :: WORD) = T" using T by (simp add: unat_of_nat)
  ultimately show ?thesis by (simp add: T_def d_def)
qed

lemma calcKenoProbability_impossible:
  assumes n: "n \<le> 20" and r: "r \<le> 20" and nr: "n < r"
  shows "calcCombinations (of_nat n) (of_nat r) = Some 0"
    and "unat (ucast ((of_nat n :: DWORD) - of_nat r) :: WORD) = 65536 - (r - n)"
    and "calcPartialFactorial 60 (ucast ((of_nat n :: DWORD) - of_nat r)) = Finite (even (r - n)) 0"
    and "calcKenoProbability (of_nat n) (of_nat r) = Some (Finite (even (r - n)) 0)"
proof -
  have lt: "(of_nat n :: DWORD) < of_nat r"
    using assms by (simp add: word_less_nat_alt unat_of_nat)
  then show c: "calcCombinations (of_nat n) (of_nat r) = Some 0"
    by (simp add: calcCombinations_def not_le [symmetric])
  show t: "unat (ucast ((of_nat n :: DWORD) - of_nat r) :: WORD) = 65536 - (r - n)"
    using nr r by (rule ucast_underflow)
  have "foldl (pf_step 60) (Finite False 1) [0..<65536 - (r - n)]
      = Finite (odd (65536 - (r - n) - Suc 60)) 0"
    using assms by (intro pf_foldl_through_zero) simp_all
  moreover have "odd (65536 - (r - n) - Suc 60) = even (r - n)"
  proof -
    have "65536 - (r - n) - Suc 60 = 65475 - (r - n)" by simp
    moreover have "odd (65475 - (r - n)) = even (r - n)" using assms by (simp add: even_diff_nat) presburger
    ultimately show ?thesis by simp
  qed
  ultimately show p2: "calcPartialFactorial 60 (ucast ((of_nat n :: DWORD) - of_nat r)) = Finite (even (r - n)) 0"
    by (simp add: calcPartialFactorial_foldl t)
  have "approx r (calcPartialFactorial 20 (of_nat r)) (of_nat (falling 20 r))"
    using calcPartialFactorial_approx [of r 20] r by simp
  then obtain v1 where p1: "calcPartialFactorial 20 (of_nat r) = Finite False v1"
    by (rule approx_Finite)
  have "approx n (calcPartialFactorial 80 (of_nat n)) (of_nat (falling 80 n))"
    using calcPartialFactorial_approx [of n 80] n by simp
  then obtain v3 where p3: "calcPartialFactorial 80 (of_nat n) = Finite False v3" and v3: "0 < v3"
    by (rule approx_Finite)
  have a1: "(ucast (of_nat r :: DWORD) :: WORD) = of_nat r"
    using r by (intro ucast_of_nat_dword) simp
  have a3: "(ucast (of_nat n :: DWORD) :: WORD) = of_nat n"
    using n by (intro ucast_of_nat_dword) simp
  have k1: "(word_of_int g_MAX_SELECTABLE_BALLS :: WORD) = 20"
    by (simp add: g_MAX_SELECTABLE_BALLS_def)
  have k2: "(word_of_int (g_TOTAL_BALLS - g_MAX_SELECTABLE_BALLS) :: WORD) = 60"
    by (simp add: g_MAX_SELECTABLE_BALLS_def g_TOTAL_BALLS_def)
  have k3: "(word_of_int g_TOTAL_BALLS :: WORD) = 80"
    by (simp add: g_TOTAL_BALLS_def)
  have z: "double_of_int (uint (0 :: DWORD)) = Finite False 0"
    by (simp add: double_of_int_def)
  have "calcKenoProbability (of_nat n) (of_nat r)
      = Some (fdiv (fmul (fmul (double_of_int (uint (0 :: DWORD))) (calcPartialFactorial 20 (of_nat r)))
                         (calcPartialFactorial 60 (ucast ((of_nat n :: DWORD) - of_nat r))))
                   (calcPartialFactorial 80 (of_nat n)))"
    unfolding calcKenoProbability_def c
    by (simp only: option.case Let_def a1 a3 k1 k2 k3)
  also have "\<dots> = Some (Finite (even (r - n)) 0)"
    unfolding z p1 p2 p3 using v3 by simp
  finally show "calcKenoProbability (of_nat n) (of_nat r) = Some (Finite (even (r - n)) 0)" .
qed

section \<open>The loops of the main program\<close>

lemma calcKenoProbability_defined:
  assumes "i < 20" and "k \<le> i + 1"
  shows "calcKenoProbability (of_nat (i + 1)) (of_nat k) = Some (cell i k)"
proof -
  have "i + 1 \<le> 20" using assms by simp
  from calcKenoProbability_nat [OF this assms(2)] show ?thesis
    using assms by (simp add: cell_def del: of_nat_add of_nat_Suc)
qed

lemma row_calls_step:
  "j < 21 \<Longrightarrow> row_calls i j = (if j \<le> i + 1 then [(of_nat (i + 1), of_nat j)] else []) @ row_calls i (j + 1)"
  by (simp add: row_calls_def upt_conv_Cons del: of_nat_add of_nat_Suc)

lemma row_calls_end: "row_calls i 21 = []"
  by (simp add: row_calls_def)

lemma prob_cols_spec:
  assumes "i < 20" and "j \<le> 21" and "length P = 20" and "length (P ! i) = 21"
  shows "\<exists>P'. prob_cols i j (P, L) = Some (P', L @ row_calls i j)
           \<and> length P' = 20 \<and> length (P' ! i) = 21
           \<and> (\<forall>r<20. r \<noteq> i \<longrightarrow> P' ! r = P ! r)
           \<and> (\<forall>k<21. P' ! i ! k = (if j \<le> k \<and> k \<le> i + 1 then cell i k else P ! i ! k))"
  using assms
proof (induction "21 - j" arbitrary: j P L)
  case 0
  then have j: "j = 21" by simp
  have "prob_cols i j (P, L) = Some (P, L)"
    unfolding j by (subst prob_cols.simps) (simp add: g_MAX_COLS_def)
  then show ?case using 0 j by (simp add: row_calls_end)
next
  case (Suc d)
  then have j: "j < 21" by simp
  show ?case
  proof (cases "j \<le> i + 1")
    case True
    define P1 where "P1 = P[i := (P ! i)[j := cell i j]]"
    have step: "prob_cols i j (P, L) = prob_cols i (j + 1) (P1, L @ [(of_nat (i + 1), of_nat j)])"
      using j True calcKenoProbability_defined [OF Suc.prems(1) True]
      by (subst prob_cols.simps) (simp add: g_MAX_COLS_def P1_def del: of_nat_add of_nat_Suc)
    have l1: "length P1 = 20" and l2: "length (P1 ! i) = 21"
      using Suc.prems by (simp_all add: P1_def)
    have "d = 21 - (j + 1)" using Suc.hyps(2) by simp
    from Suc.hyps(1) [OF this Suc.prems(1) _ l1 l2, of "L @ [(of_nat (i + 1), of_nat j)]"] j
    obtain P' where r: "prob_cols i (j + 1) (P1, L @ [(of_nat (i + 1), of_nat j)])
          = Some (P', (L @ [(of_nat (i + 1), of_nat j)]) @ row_calls i (j + 1))"
      and a: "length P' = 20" and b: "length (P' ! i) = 21"
      and c: "\<forall>r<20. r \<noteq> i \<longrightarrow> P' ! r = P1 ! r"
      and e: "\<forall>k<21. P' ! i ! k = (if j + 1 \<le> k \<and> k \<le> i + 1 then cell i k else P1 ! i ! k)"
      by auto
    have c': "\<forall>r<20. r \<noteq> i \<longrightarrow> P' ! r = P ! r" using c by (simp add: P1_def)
    have e': "\<forall>k<21. P' ! i ! k = (if j \<le> k \<and> k \<le> i + 1 then cell i k else P ! i ! k)"
    proof (intro allI impI)
      fix k :: nat
      assume k: "k < 21"
      show "P' ! i ! k = (if j \<le> k \<and> k \<le> i + 1 then cell i k else P ! i ! k)"
      proof (cases "k = j")
        case True
        then have "P' ! i ! k = P1 ! i ! j" using e k by simp
        also have "\<dots> = cell i j" using Suc.prems j by (simp add: P1_def)
        finally show ?thesis using True \<open>j \<le> i + 1\<close> by simp
      next
        case False
        then have "P1 ! i ! k = P ! i ! k" using Suc.prems by (simp add: P1_def)
        with e k False show ?thesis by (auto simp: Suc_le_eq)
      qed
    qed
    have "prob_cols i j (P, L) = Some (P', L @ row_calls i j)"
      unfolding step r using True j by (simp add: row_calls_step [of j] del: of_nat_add of_nat_Suc)
    with a b c' e' show ?thesis by blast
  next
    case False
    have step: "prob_cols i j (P, L) = prob_cols i (j + 1) (P, L)"
      using j False by (subst prob_cols.simps) (simp add: g_MAX_COLS_def)
    have "d = 21 - (j + 1)" using Suc.hyps(2) by simp
    from Suc.hyps(1) [OF this Suc.prems(1) _ Suc.prems(3,4), of L] j
    obtain P' where r: "prob_cols i (j + 1) (P, L) = Some (P', L @ row_calls i (j + 1))"
      and a: "length P' = 20" and b: "length (P' ! i) = 21"
      and c: "\<forall>r<20. r \<noteq> i \<longrightarrow> P' ! r = P ! r"
      and e: "\<forall>k<21. P' ! i ! k = (if j + 1 \<le> k \<and> k \<le> i + 1 then cell i k else P ! i ! k)"
      by auto
    have e': "\<forall>k<21. P' ! i ! k = (if j \<le> k \<and> k \<le> i + 1 then cell i k else P ! i ! k)"
      using e False by auto
    have "prob_cols i j (P, L) = Some (P', L @ row_calls i j)"
      unfolding step r using False j by (simp add: row_calls_step [of j])
    with a b c e' show ?thesis by blast
  qed
qed

lemma prob_rows_spec:
  assumes "i \<le> 20" and "length P = 20" and "\<forall>r<20. length (P ! r) = 21"
  shows "\<exists>P'. prob_rows i (P, L) = Some (P', L @ concat (map (\<lambda>r. row_calls r 0) [i..<20]))
           \<and> length P' = 20 \<and> (\<forall>r<20. length (P' ! r) = 21)
           \<and> (\<forall>r<20. \<forall>k<21. P' ! r ! k = (if i \<le> r \<and> k \<le> r + 1 then cell r k else P ! r ! k))"
  using assms
proof (induction "20 - i" arbitrary: i P L)
  case 0
  then have i: "i = 20" by simp
  have "prob_rows i (P, L) = Some (P, L)"
    unfolding i by (subst prob_rows.simps) (simp add: g_MAX_ROWS_def)
  then show ?case using 0 i by simp
next
  case (Suc d)
  then have i: "i < 20" by simp
  then have li: "length (P ! i) = 21" using Suc.prems by simp
  from prob_cols_spec [OF i _ Suc.prems(2) li, of 0 L]
  obtain P1 where r1: "prob_cols i 0 (P, L) = Some (P1, L @ row_calls i 0)"
    and a1: "length P1 = 20" and b1: "length (P1 ! i) = 21"
    and c1: "\<forall>r<20. r \<noteq> i \<longrightarrow> P1 ! r = P ! r"
    and e1: "\<forall>k<21. P1 ! i ! k = (if 0 \<le> k \<and> k \<le> i + 1 then cell i k else P ! i ! k)"
    by auto
  have len1: "\<forall>r<20. length (P1 ! r) = 21"
  proof (intro allI impI)
    fix r :: nat
    assume "r < 20"
    then show "length (P1 ! r) = 21"
      using b1 c1 Suc.prems(3) by (cases "r = i") simp_all
  qed
  have step: "prob_rows i (P, L) = prob_rows (i + 1) (P1, L @ row_calls i 0)"
    using i r1 by (subst prob_rows.simps) (simp add: g_MAX_ROWS_def)
  have "d = 20 - (i + 1)" using Suc.hyps(2) by simp
  from Suc.hyps(1) [OF this _ a1 len1, of "L @ row_calls i 0"] i
  obtain P' where r: "prob_rows (i + 1) (P1, L @ row_calls i 0)
        = Some (P', (L @ row_calls i 0) @ concat (map (\<lambda>r. row_calls r 0) [i + 1..<20]))"
    and a: "length P' = 20" and b: "\<forall>r<20. length (P' ! r) = 21"
    and e: "\<forall>r<20. \<forall>k<21. P' ! r ! k = (if i + 1 \<le> r \<and> k \<le> r + 1 then cell r k else P1 ! r ! k)"
    by auto
  have e': "\<forall>r<20. \<forall>k<21. P' ! r ! k = (if i \<le> r \<and> k \<le> r + 1 then cell r k else P ! r ! k)"
  proof (intro allI impI)
    fix r k :: nat
    assume rk: "r < 20" "k < 21"
    show "P' ! r ! k = (if i \<le> r \<and> k \<le> r + 1 then cell r k else P ! r ! k)"
    proof (cases "r = i")
      case True
      then have "P' ! r ! k = P1 ! i ! k" using e rk by simp
      also have "\<dots> = (if k \<le> i + 1 then cell i k else P ! i ! k)" using e1 rk by simp
      finally show ?thesis using True by simp
    next
      case False
      then have "P1 ! r ! k = P ! r ! k" using c1 rk by simp
      with e rk False show ?thesis by (auto simp: Suc_le_eq)
    qed
  qed
  have "prob_rows i (P, L) = Some (P', L @ concat (map (\<lambda>r. row_calls r 0) [i..<20]))"
    unfolding step r using i by (simp add: upt_conv_Cons)
  with a b e' show ?case by blast
qed

lemma prob_rows_init:
  "\<exists>P. prob_rows 0 (g_rgProbability_init, []) = Some (P, all_calls)
       \<and> length P = 20 \<and> (\<forall>r<20. length (P ! r) = 21)
       \<and> (\<forall>r<20. \<forall>k<21. P ! r ! k = cell r k)"
proof -
  have l: "length g_rgProbability_init = 20" "\<forall>r<20. length (g_rgProbability_init ! r) = 21"
    by (simp_all add: g_rgProbability_init_def g_MAX_ROWS_def g_MAX_COLS_def)
  have z: "\<forall>r<20. \<forall>k<21. g_rgProbability_init ! r ! k = Finite False 0"
    by (simp add: g_rgProbability_init_def g_MAX_ROWS_def g_MAX_COLS_def)
  from prob_rows_spec [OF _ l, of 0 "[]"]
  obtain P where r: "prob_rows 0 (g_rgProbability_init, []) = Some (P, all_calls)"
    and a: "length P = 20" and b: "\<forall>r<20. length (P ! r) = 21"
    and e: "\<forall>r<20. \<forall>k<21. P ! r ! k = (if 0 \<le> r \<and> k \<le> r + 1 then cell r k
                else g_rgProbability_init ! r ! k)"
    unfolding all_calls_def by auto
  have "\<forall>r<20. \<forall>k<21. P ! r ! k = cell r k"
    using e z by (simp add: cell_def)
  with r a b show ?thesis by blast
qed

lemma all_calls_set:
  "set all_calls = {(of_nat m, of_nat c) | m c. 1 \<le> m \<and> m \<le> 20 \<and> c \<le> m}"
proof -
  have "set all_calls = (\<Union>r\<in>{0..<20}. {(of_nat (r + 1), of_nat k) | k. k < 21 \<and> k \<le> r + 1})"
    by (auto simp: all_calls_def row_calls_def simp del: of_nat_add of_nat_Suc)
  also have "\<dots> = {(of_nat m, of_nat c) | m c. 1 \<le> m \<and> m \<le> 20 \<and> c \<le> m}"
  proof (intro equalityI subsetI)
    fix x :: "DWORD \<times> DWORD"
    assume "x \<in> (\<Union>r\<in>{0..<20}. {(of_nat (r + 1), of_nat k) | k. k < 21 \<and> k \<le> r + 1})"
    then obtain r k where "r < 20" "k \<le> r + 1" "x = (of_nat (r + 1), of_nat k)" by auto
    then have "1 \<le> r + 1 \<and> r + 1 \<le> 20 \<and> k \<le> r + 1 \<and> x = (of_nat (r + 1), of_nat k)" by simp
    then show "x \<in> {(of_nat m, of_nat c) | m c. 1 \<le> m \<and> m \<le> 20 \<and> c \<le> m}" by blast
  next
    fix x :: "DWORD \<times> DWORD"
    assume "x \<in> {(of_nat m, of_nat c) | m c. 1 \<le> m \<and> m \<le> 20 \<and> c \<le> m}"
    then obtain m c where mc: "1 \<le> m" "m \<le> 20" "c \<le> m" "x = (of_nat m, of_nat c)" by auto
    then have "m - 1 < 20 \<and> c < 21 \<and> c \<le> (m - 1) + 1 \<and> x = (of_nat ((m - 1) + 1), of_nat c)"
      by simp
    then show "x \<in> (\<Union>r\<in>{0..<20}. {(of_nat (r + 1), of_nat k) | k. k < 21 \<and> k \<le> r + 1})"
      by (intro UN_I [of "m - 1"]) auto
  qed
  finally show ?thesis .
qed

lemma ev_cols_spec:
  assumes "i < 9" and "j \<le> 9" and "length E = 9"
  shows "ev_cols P i j E = E[i := foldl (ev_term P i) (E ! i) [j..<9]]"
  using assms
proof (induction "9 - j" arbitrary: j E)
  case 0
  then have j: "j = 9" by simp
  show ?case unfolding j by (subst ev_cols.simps) (simp add: g_MAX_SPOTS_MARKED_def)
next
  case (Suc d)
  then have j: "j < 9" by simp
  have d: "d = 9 - (j + 1)" using Suc.hyps(2) by simp
  have up: "[j..<9] = j # [j + 1..<9]" using j by (simp add: upt_conv_Cons)
  show ?case
  proof (cases "fgt (g_rgCatchPayOut ! i ! j) (double_of_int 0)")
    case True
    define E1 where "E1 = E[i := fadd (E ! i) (fdiv (fmul (P ! i ! (j + 1)) (g_rgCatchPayOut ! i ! j))
                                         (double_of_int (int i + 2)))]"
    have l1: "length E1 = 9" using Suc.prems by (simp add: E1_def)
    have "ev_cols P i j E = ev_cols P i (j + 1) E1"
      using j True by (subst ev_cols.simps) (simp add: g_MAX_SPOTS_MARKED_def E1_def Let_def)
    also have "\<dots> = E1[i := foldl (ev_term P i) (E1 ! i) [j + 1..<9]]"
      using j by (intro Suc.hyps(1) [OF d Suc.prems(1) _ l1]) simp
    also have "E1 ! i = ev_term P i (E ! i) j"
      using True Suc.prems by (simp add: E1_def ev_term_def)
    also have "E1[i := foldl (ev_term P i) (ev_term P i (E ! i) j) [j + 1..<9]]
        = E[i := foldl (ev_term P i) (E ! i) [j..<9]]"
      unfolding up by (simp add: E1_def)
    finally show ?thesis .
  next
    case False
    have "ev_cols P i j E = ev_cols P i (j + 1) E"
      using j False by (subst ev_cols.simps) (simp add: g_MAX_SPOTS_MARKED_def Let_def)
    also have "\<dots> = E[i := foldl (ev_term P i) (E ! i) [j + 1..<9]]"
      using j by (intro Suc.hyps(1) [OF d Suc.prems(1) _ Suc.prems(3)]) simp
    also have "foldl (ev_term P i) (E ! i) [j + 1..<9] = foldl (ev_term P i) (E ! i) [j..<9]"
      unfolding up using False by (simp add: ev_term_def)
    finally show ?thesis .
  qed
qed

lemma ev_rows_spec:
  assumes "i \<le> 9" and "length E = 9"
  shows "length (ev_rows P i E) = 9
       \<and> (\<forall>r<9. ev_rows P i E ! r = (if i \<le> r then foldl (ev_term P r) (E ! r) [0..<9] else E ! r))"
  using assms
proof (induction "9 - i" arbitrary: i E)
  case 0
  then have i: "i = 9" by simp
  have "ev_rows P i E = E" unfolding i by (subst ev_rows.simps) (simp add: g_MAX_SPOTS_MARKED_def)
  then show ?case using 0 i by simp
next
  case (Suc d)
  then have i: "i < 9" by simp
  define E1 where "E1 = E[i := foldl (ev_term P i) (E ! i) [0..<9]]"
  have c: "ev_cols P i 0 E = E1"
    unfolding E1_def using i Suc.prems(2) by (intro ev_cols_spec) simp_all
  have l1: "length E1 = 9" using Suc.prems by (simp add: E1_def)
  have step: "ev_rows P i E = ev_rows P (i + 1) E1"
    using i by (subst ev_rows.simps) (simp add: g_MAX_SPOTS_MARKED_def c)
  have d: "d = 9 - (i + 1)" using Suc.hyps(2) by simp
  from Suc.hyps(1) [OF d _ l1] i
  have a: "length (ev_rows P (i + 1) E1) = 9"
    and b: "\<forall>r<9. ev_rows P (i + 1) E1 ! r
               = (if i + 1 \<le> r then foldl (ev_term P r) (E1 ! r) [0..<9] else E1 ! r)"
    by simp_all
  have "\<forall>r<9. ev_rows P i E ! r = (if i \<le> r then foldl (ev_term P r) (E ! r) [0..<9] else E ! r)"
  proof (intro allI impI)
    fix r :: nat
    assume r: "r < 9"
    show "ev_rows P i E ! r = (if i \<le> r then foldl (ev_term P r) (E ! r) [0..<9] else E ! r)"
    proof (cases "r = i")
      case True
      then show ?thesis unfolding step using b r Suc.prems by (simp add: E1_def)
    next
      case False
      then have "E1 ! r = E ! r" by (simp add: E1_def)
      then show ?thesis unfolding step using b r False by (auto simp: Suc_le_eq)
    qed
  qed
  with a show ?case unfolding step by simp
qed

lemma tmain_spec:
  "\<exists>P E. tmain = Some (P, all_calls, E)
        \<and> length P = 20 \<and> (\<forall>r<20. length (P ! r) = 21)
        \<and> (\<forall>r<20. \<forall>k<21. P ! r ! k = cell r k)
        \<and> length E = 9
        \<and> (\<forall>r<9. E ! r = foldl (ev_term P r) (Finite False 0) [0..<9])"
proof -
  from prob_rows_init obtain P
    where r: "prob_rows 0 (g_rgProbability_init, []) = Some (P, all_calls)"
      and a: "length P = 20" and b: "\<forall>r<20. length (P ! r) = 21"
      and e: "\<forall>r<20. \<forall>k<21. P ! r ! k = cell r k"
    by blast
  have l: "length g_rgExpectedValue_init = 9"
    by (simp add: g_rgExpectedValue_init_def g_MAX_SPOTS_MARKED_def)
  have z: "\<forall>r<9. g_rgExpectedValue_init ! r = Finite False 0"
    by (simp add: g_rgExpectedValue_init_def g_MAX_SPOTS_MARKED_def)
  from ev_rows_spec [OF _ l, of 0 P]
  have c: "length (ev_rows P 0 g_rgExpectedValue_init) = 9"
    and d: "\<forall>r<9. ev_rows P 0 g_rgExpectedValue_init ! r
              = foldl (ev_term P r) (g_rgExpectedValue_init ! r) [0..<9]"
    by simp_all
  have d': "\<forall>r<9. ev_rows P 0 g_rgExpectedValue_init ! r = foldl (ev_term P r) (Finite False 0) [0..<9]"
    using d z by simp
  have "tmain = Some (P, all_calls, ev_rows P 0 g_rgExpectedValue_init)"
    by (simp add: tmain_def r)
  with a b e c d' show ?thesis by blast
qed

lemma calcFactorial_calls_le: "w \<in> set (calcFactorial_calls x) \<Longrightarrow> w \<le> x"
proof (induction x rule: calcFactorial_calls.induct)
  case (1 wN)
  show ?case
  proof (cases "1 < wN")
    case True
    from "1.prems" have "w = wN \<or> w \<in> set (calcFactorial_calls (wN - 1))"
      using True by (subst (asm) calcFactorial_calls.simps) simp
    moreover have "unat (wN - 1) < unat wN" using True by (metis measure_unat word_not_simps(1))
    then have "wN - 1 \<le> wN" by (simp add: word_le_nat_alt)
    ultimately show ?thesis using "1.IH" [OF True] by auto
  next
    case False
    from "1.prems" have "w = wN"
      using False by (subst (asm) calcFactorial_calls.simps) simp
    then show ?thesis by simp
  qed
qed

lemma calcCombinations_calls_small:
  assumes n: "unat dwN \<le> 20" and r: "dwR \<le> dwN" and w: "w \<in> set (calcCombinations_calls dwN dwR)"
  shows "unat w \<le> 20" and "unat (calcFactorial w) = fact (unat w)"
proof -
  have rn: "unat dwR \<le> unat dwN" using r by (simp add: word_le_nat_alt)
  have d: "unat (dwN - dwR) = unat dwN - unat dwR" using r by (simp add: unat_sub)
  from w r have "w \<in> set (calcFactorial_calls (ucast dwN)) \<or> w \<in> set (calcFactorial_calls (ucast dwR))
      \<or> w \<in> set (calcFactorial_calls (ucast (dwN - dwR)))"
    by (simp add: calcCombinations_calls_def)
  then have "w \<le> ucast dwN \<or> w \<le> ucast dwR \<or> w \<le> ucast (dwN - dwR)"
    using calcFactorial_calls_le by blast
  then have "unat w \<le> unat (ucast dwN :: WORD) \<or> unat w \<le> unat (ucast dwR :: WORD)
      \<or> unat w \<le> unat (ucast (dwN - dwR) :: WORD)"
    by (simp add: word_le_nat_alt)
  moreover have "unat (ucast dwN :: WORD) = unat dwN" using n by (rule unat_ucast_dword_small)
  moreover have "unat (ucast dwR :: WORD) = unat dwR" using n rn by (intro unat_ucast_dword_small) simp
  moreover have "unat (ucast (dwN - dwR) :: WORD) = unat (dwN - dwR)"
    using n d by (intro unat_ucast_dword_small) simp
  ultimately show "unat w \<le> 20" using n rn d by linarith
  then show "unat (calcFactorial w) = fact (unat w)" by (rule unat_calcFactorial_small)
qed

lemma not_called:
  assumes "m \<le> 20" and "c \<le> 20" and "m < c"
  shows "((of_nat m :: DWORD), (of_nat c :: DWORD)) \<notin> set all_calls"
proof
  assume "((of_nat m :: DWORD), (of_nat c :: DWORD)) \<in> set all_calls"
  then obtain m' c' where mc: "m' \<le> 20" "c' \<le> m'"
      and e: "(of_nat m :: DWORD) = of_nat m'" "(of_nat c :: DWORD) = of_nat c'"
    unfolding all_calls_set by auto
  have 1: "unat (of_nat m :: DWORD) = m" by (rule unat_of_nat_dword) (use assms in simp)
  have 2: "unat (of_nat m' :: DWORD) = m'" by (rule unat_of_nat_dword) (use mc in simp)
  have 3: "unat (of_nat c :: DWORD) = c" by (rule unat_of_nat_dword) (use assms in simp)
  have 4: "unat (of_nat c' :: DWORD) = c'" by (rule unat_of_nat_dword) (use mc in simp)
  from e(1) have "unat (of_nat m :: DWORD) = unat (of_nat m' :: DWORD)" by (simp only:)
  then have "m = m'" unfolding 1 2 .
  from e(2) have "unat (of_nat c :: DWORD) = unat (of_nat c' :: DWORD)" by (simp only:)
  then have "c = c'" unfolding 3 4 .
  with \<open>m = m'\<close> mc assms show False by simp
qed

lemma cell_approx:
  assumes "1 \<le> m" and "m \<le> 20" and "c \<le> m"
  shows "calcKenoProbability (of_nat m) (of_nat c) = Some (cell (m - 1) c)"
    and "approx (2 * m + 3) (cell (m - 1) c) (hypergeometric m c)"
proof -
  from calcKenoProbability_approx [OF assms(2,3)]
  obtain d where d: "calcKenoProbability (of_nat m) (of_nat c) = Some d"
    and a: "approx (2 * m + 3) d (hypergeometric m c)"
    by blast
  have "cell (m - 1) c = d" using assms d by (simp add: cell_def)
  with d a show "calcKenoProbability (of_nat m) (of_nat c) = Some (cell (m - 1) c)"
    and "approx (2 * m + 3) (cell (m - 1) c) (hypergeometric m c)"
    by simp_all
qed

lemma hypergeometric_sum:
  assumes "m \<le> 20"
  shows "(\<Sum>c = 0..m. hypergeometric m c) = 1"
proof -
  have "(\<Sum>c\<le>m. (20 choose c) * (60 choose (m - c))) = (20 + 60) choose m"
    by (rule vandermonde)
  then have "(of_nat (\<Sum>c\<le>m. (20 choose c) * (60 choose (m - c))) :: rat) = of_nat (80 choose m)"
    by simp
  then have s: "(\<Sum>c\<le>m. of_nat (20 choose c) * of_nat (60 choose (m - c))) = (of_nat (80 choose m) :: rat)"
    by (simp only: of_nat_sum of_nat_mult)
  have nz: "(of_nat (80 choose m) :: rat) \<noteq> 0" using assms by simp
  have "(\<Sum>c = 0..m. hypergeometric m c)
      = (\<Sum>c\<le>m. of_nat (20 choose c) * of_nat (60 choose (m - c))) / of_nat (80 choose m)"
    by (simp add: hypergeometric_def sum_divide_distrib atMost_atLeast0)
  also have "\<dots> = 1" unfolding s using nz by simp
  finally show ?thesis .
qed

lemma approx_sum:
  assumes "\<forall>c \<in> {0..m :: nat}. approx K (f c) (y c)"
  shows "approx K (Finite False (\<Sum>c = 0..m. valof (f c))) (\<Sum>c = 0..m. y c)"
proof -
  have each: "0 < y c \<and> y c * (1 - eps) ^ K \<le> valof (f c) \<and> valof (f c) * (1 - eps) ^ K \<le> y c"
    if "c \<in> {0..m}" for c
  proof -
    from assms that have "approx K (f c) (y c)" by blast
    then show ?thesis by (cases "f c") (simp_all add: approx_def)
  qed
  have "0 < y 0" using each [of 0] by simp
  moreover have "0 \<le> (\<Sum>c = 1..m. y c)" using each by (intro sum_nonneg) (simp add: less_imp_le)
  moreover have "(\<Sum>c = 0..m. y c) = y 0 + (\<Sum>c = 1..m. y c)"
    by (simp add: sum.atLeast_Suc_atMost)
  ultimately have pos: "0 < (\<Sum>c = 0..m. y c)" by linarith
  have "(\<Sum>c = 0..m. y c * (1 - eps) ^ K) \<le> (\<Sum>c = 0..m. valof (f c))"
    using each by (intro sum_mono) simp
  then have l: "(\<Sum>c = 0..m. y c) * (1 - eps) ^ K \<le> (\<Sum>c = 0..m. valof (f c))"
    by (simp add: sum_distrib_right)
  have "(\<Sum>c = 0..m. valof (f c) * (1 - eps) ^ K) \<le> (\<Sum>c = 0..m. y c)"
    using each by (intro sum_mono) simp
  then have u: "(\<Sum>c = 0..m. valof (f c)) * (1 - eps) ^ K \<le> (\<Sum>c = 0..m. y c)"
    by (simp add: sum_distrib_right)
  from pos l u show ?thesis by (rule approxI)
qed

lemma approx_fadd:
  assumes a: "approx ka a ya" and b: "approx kb b yb"
    and k: "max ka kb \<le> 2 ^ 52"
    and lo: "2 powi (- 1021) \<le> ya + yb" and hi: "ya + yb \<le> 2 powi 1022"
  shows "approx (Suc (max ka kb)) (fadd a b) (ya + yb)"
proof -
  let ?K = "max ka kb"
  from a have "approx ?K a ya" by (rule approx_mono) simp
  then obtain va where da: "a = Finite False va" and ya: "0 < ya"
    and la: "ya * (1 - eps) ^ ?K \<le> va" and ua: "va * (1 - eps) ^ ?K \<le> ya"
    by (rule approxE)
  from b have "approx ?K b yb" by (rule approx_mono) simp
  then obtain vb where db: "b = Finite False vb" and yb: "0 < yb"
    and lb: "yb * (1 - eps) ^ ?K \<le> vb" and ub: "vb * (1 - eps) ^ ?K \<le> yb"
    by (rule approxE)
  have va: "0 < va" using approx_pos(2) a da by simp
  have vb: "0 < vb" using approx_pos(2) b db by simp
  have l: "(ya + yb) * (1 - eps) ^ ?K \<le> va + vb" using la lb by (simp add: distrib_right)
  have u: "(va + vb) * (1 - eps) ^ ?K \<le> ya + yb" using ua ub by (simp add: distrib_right)
  have "approx (Suc ?K) (round_double False (va + vb)) (ya + yb)"
    using _ l u k lo hi by (rule approx_round) (use ya yb in simp)
  moreover have "fadd a b = round_double False (va + vb)"
    using va vb by (simp add: da db Let_def)
  ultimately show ?thesis by simp
qed

lemma fadd_zero_approx:
  assumes a: "approx K a y" and k: "K \<le> 2 ^ 52"
    and lo: "2 powi (- 1021) \<le> y" and hi: "y \<le> 2 powi 1022"
  shows "approx (Suc K) (fadd (Finite False 0) a) y"
proof -
  from a obtain v where d: "a = Finite False v" and y: "0 < y"
    and l: "y * (1 - eps) ^ K \<le> v" and u: "v * (1 - eps) ^ K \<le> y"
    by (rule approxE)
  have v: "0 < v" using approx_pos(2) a d by simp
  have "approx (Suc K) (round_double False v) y"
    using y l u k lo hi by (rule approx_round)
  moreover have "fadd (Finite False 0) a = round_double False v"
    using v by (simp add: d Let_def)
  ultimately show ?thesis by simp
qed

lemma foldl_fadd_approx:
  assumes ap: "\<forall>c\<le>m. approx K (f c) (y c)"
    and K: "K + Suc m \<le> 2 ^ 52"
    and lo: "2 powi (- 1021) \<le> y 0" and hi: "(\<Sum>c = 0..m. y c) \<le> 2 powi 1022"
    and j: "j \<le> m"
  shows "approx (K + Suc j) (foldl fadd (Finite False 0) (map f [0..<Suc j])) (\<Sum>c = 0..j. y c)"
  using j
proof (induction j)
  case 0
  have "approx (Suc K) (fadd (Finite False 0) (f 0)) (y 0)"
  proof (rule fadd_zero_approx)
    show "approx K (f 0) (y 0)" using ap by simp
    show "K \<le> 2 ^ 52" using K by simp
    show "2 powi (- 1021) \<le> y 0" by (rule lo)
    have "y 0 \<le> (\<Sum>c = 0..m. y c)"
    proof -
      have "(\<Sum>c = 0..m. y c) = y 0 + (\<Sum>c = 1..m. y c)" by (simp add: sum.atLeast_Suc_atMost)
      moreover have "0 \<le> (\<Sum>c = 1..m. y c)"
      proof (rule sum_nonneg)
        fix c assume "c \<in> {1..m}"
        then have "approx K (f c) (y c)" using ap by simp
        then show "0 \<le> y c" by (cases "f c") (simp_all add: approx_def)
      qed
      ultimately show ?thesis by linarith
    qed
    with hi show "y 0 \<le> 2 powi 1022" by linarith
  qed
  then show ?case by simp
next
  case (Suc j)
  then have IH: "approx (K + Suc j) (foldl fadd (Finite False 0) (map f [0..<Suc j])) (\<Sum>c = 0..j. y c)"
    by simp
  have aj: "approx K (f (Suc j)) (y (Suc j))" using ap Suc.prems by simp
  have ypos: "0 \<le> y c" if "c \<le> m" for c
  proof -
    from that have "approx K (f c) (y c)" using ap by simp
    then show ?thesis by (cases "f c") (simp_all add: approx_def)
  qed
  have s: "(\<Sum>c = 0..Suc j. y c) = (\<Sum>c = 0..j. y c) + y (Suc j)" by simp
  have le: "(\<Sum>c = 0..Suc j. y c) \<le> (\<Sum>c = 0..m. y c)"
  proof (rule sum_mono2)
    show "finite {0..m}" by simp
    show "{0..Suc j} \<subseteq> {0..m}" using Suc.prems by auto
    show "0 \<le> y b" if "b \<in> {0..m} - {0..Suc j}" for b using that ypos by simp
  qed
  have ge: "y 0 \<le> (\<Sum>c = 0..Suc j. y c)"
  proof -
    have "(\<Sum>c = 0..Suc j. y c) = y 0 + (\<Sum>c = 1..Suc j. y c)" by (simp add: sum.atLeast_Suc_atMost)
    moreover have "0 \<le> (\<Sum>c = 1..Suc j. y c)"
      using Suc.prems by (intro sum_nonneg ypos) simp
    ultimately show ?thesis by linarith
  qed
  have "approx (Suc (max (K + Suc j) K))
          (fadd (foldl fadd (Finite False 0) (map f [0..<Suc j])) (f (Suc j)))
          ((\<Sum>c = 0..j. y c) + y (Suc j))"
  proof (rule approx_fadd [OF IH aj])
    show "max (K + Suc j) K \<le> 2 ^ 52" using K Suc.prems by simp
    show "2 powi (- 1021) \<le> (\<Sum>c = 0..j. y c) + y (Suc j)" using lo ge unfolding s by linarith
    show "(\<Sum>c = 0..j. y c) + y (Suc j) \<le> 2 powi 1022" using hi le unfolding s by linarith
  qed
  moreover have "max (K + Suc j) K = K + Suc j" by simp
  ultimately show ?case unfolding s by simp
qed

lemma hypergeometric_0_lower:
  assumes "m \<le> 20"
  shows "2 powi (- 1021) \<le> hypergeometric m 0"
proof -
  have "80 choose m \<le> 2 ^ 80" by (rule binomial_le_pow2)
  then have "(of_nat (80 choose m) :: rat) \<le> of_nat (2 ^ 80)" by (simp only: of_nat_le_iff)
  then have b: "(of_nat (80 choose m) :: rat) \<le> 2 ^ 80" by simp
  have "0 < 80 choose m" using assms by (intro zero_less_binomial) simp
  then have p: "(0 :: rat) < of_nat (80 choose m)" by simp
  have "0 < 60 choose m" using assms by (intro zero_less_binomial) simp
  then have "1 \<le> 60 choose m" by linarith
  then have "(of_nat 1 :: rat) \<le> of_nat (60 choose m)" by (simp only: of_nat_le_iff)
  then have c: "(1 :: rat) \<le> of_nat (60 choose m)" by simp
  have "(2 :: rat) powi (- 1021) \<le> 1 / 2 ^ 80" by (simp add: power_int_minus_divide)
  also have "\<dots> \<le> 1 / of_nat (80 choose m)" using b p by (intro divide_left_mono) simp_all
  also have "\<dots> \<le> of_nat (60 choose m) / of_nat (80 choose m)"
    using c p by (intro divide_right_mono) simp_all
  finally show ?thesis by (simp add: hypergeometric_def)
qed

section \<open>Claims about the combinatorics library\<close>

text \<open>
  C5. For every \<open>n\<close> and \<open>r\<close> with \<open>r \<le> n \<le> 20\<close>, \<open>calcCombinations n r\<close> returns
  exactly the binomial coefficient \<open>n! / (r! * (n - r)!)\<close>: the three 64-bit
  factorials and the denominator product hold the mathematical values (no
  wrap-around), the division is defined, and \<open>calcCombinations 9 5\<close> is 126.
\<close>

theorem C5_calcCombinations_binomial:
  assumes "unat dwN \<le> 20" and "dwR \<le> dwN"
  shows "calcCombinations dwN dwR = Some (of_nat (unat dwN choose unat dwR))
       \<and> unat dwN choose unat dwR = fact (unat dwN) div (fact (unat dwR) * fact (unat dwN - unat dwR))
       \<and> unat (calcFactorial (ucast dwN)) = fact (unat dwN)
       \<and> unat (calcFactorial (ucast dwR)) = fact (unat dwR)
       \<and> unat (calcFactorial (ucast (dwN - dwR))) = fact (unat dwN - unat dwR)
       \<and> unat (calcFactorial (ucast dwR) * calcFactorial (ucast (dwN - dwR)))
           = fact (unat dwR) * fact (unat dwN - unat dwR)
       \<and> calcCombinations 9 5 = Some 126"
proof -
  have rn: "unat dwR \<le> unat dwN" using assms(2) by (simp add: word_le_nat_alt)
  have d: "unat (dwN - dwR) = unat dwN - unat dwR" using assms(2) by (simp add: unat_sub)
  have c: "(9 choose 5) = (126 :: nat)" by code_simp
  have "calcCombinations 9 5 = Some 126"
    using calcCombinations_exact(1) [of 9 5] c by simp
  moreover have "unat (calcFactorial (ucast dwN)) = fact (unat dwN)"
    using assms(1) by (simp add: unat_calcFactorial_small unat_ucast_dword_small)
  moreover have "unat (calcFactorial (ucast dwR)) = fact (unat dwR)"
    using assms(1) rn by (simp add: unat_calcFactorial_small unat_ucast_dword_small)
  moreover have "unat (calcFactorial (ucast (dwN - dwR))) = fact (unat dwN - unat dwR)"
    using assms(1) rn d by (simp add: unat_calcFactorial_small unat_ucast_dword_small)
  ultimately show ?thesis
    using calcCombinations_exact [OF assms] binomial_fact' [OF rn] by simp
qed

theorem C5_witness:
  "unat (9 :: DWORD) \<le> 20 \<and> (5 :: DWORD) \<le> 9 \<and> calcCombinations 9 5 = Some 126"
proof -
  have a: "unat (9 :: DWORD) \<le> 20" by simp
  have b: "(5 :: DWORD) \<le> 9" by simp
  from C5_calcCombinations_binomial [OF a b]
  have "calcCombinations 9 5 = Some 126" by (elim conjE)
  with a b show ?thesis by simp
qed

text \<open>
  C6, as stated, fails: \<open>66!\<close> is a multiple of \<open>2 ^ 64\<close>, so for \<open>n = 66\<close> the
  64-bit factorial is 0 and both \<open>calcCombinations 66 0\<close> and
  \<open>calcCombinations 66 66\<close> divide by zero.
\<close>

theorem C6_counterexample:
  "calcCombinations 66 0 = None \<and> calcCombinations 66 66 = None"
  by (simp add: calcCombinations_zero calcCombinations_self)

text \<open>
  C6, amended. \<open>calcCombinations n 0\<close> and \<open>calcCombinations n n\<close> return 1 for every
  \<open>n\<close> whose value after the cast to \<open>WORD\<close> is below 66 (in particular for every
  \<open>n \<le> 65\<close>).
\<close>

theorem C6_calcCombinations_edges:
  "unat (ucast dwN :: WORD) < 66 \<Longrightarrow>
     calcCombinations dwN 0 = Some 1 \<and> calcCombinations dwN dwN = Some 1"
  by (simp add: calcCombinations_zero calcCombinations_self)

theorem C6_witness:
  "unat (ucast (65 :: DWORD) :: WORD) < 66
     \<and> calcCombinations 65 0 = Some 1 \<and> calcCombinations 65 65 = Some 1"
  using C6_calcCombinations_edges [of 65] by simp

text \<open>
  C7. For every \<open>n\<close> and every \<open>r > n\<close>, \<open>calcCombinations n r\<close> returns 0, and no
  factorial is evaluated on that path.
\<close>

theorem C7_calcCombinations_guard:
  "dwN < dwR \<Longrightarrow> calcCombinations dwN dwR = Some 0 \<and> calcCombinations_calls dwN dwR = []"
  by (simp add: calcCombinations_def calcCombinations_calls_def not_le [symmetric])

theorem C7_witness:
  "(3 :: DWORD) < 5 \<and> calcCombinations 3 5 = Some 0 \<and> calcCombinations_calls 3 5 = []"
  using C7_calcCombinations_guard [of 3 5] by simp

section \<open>Claims about the partial factorial and the probability formula\<close>

text \<open>
  C1. For every \<open>numMarked\<close> in 1..20 and every \<open>caught\<close> in 0..\<open>numMarked\<close>,
  \<open>calcKenoProbability\<close> returns the double
  \<open>combinations * partialFactorial(20, caught) * partialFactorial(60, numMarked - caught)
  / partialFactorial(80, numMarked)\<close>, evaluated left to right in double arithmetic,
  where \<open>combinations\<close> is the exact binomial coefficient. That double is finite and
  agrees with the hypergeometric probability (population 80, 20 drawn, sample
  \<open>numMarked\<close>) up to a relative error of \<open>2 ^ - 46\<close>.
\<close>

theorem C1_calcKenoProbability_formula:
  assumes "1 \<le> numMarked" and "numMarked \<le> 20" and "caught \<le> numMarked"
  shows "\<exists>dwNumCombinations d.
      calcCombinations (of_nat numMarked) (of_nat caught) = Some dwNumCombinations
    \<and> unat dwNumCombinations = numMarked choose caught
    \<and> calcKenoProbability (of_nat numMarked) (of_nat caught) = Some d
    \<and> d = fdiv (fmul (fmul (double_of_int (uint dwNumCombinations))
                             (calcPartialFactorial 20 (of_nat caught)))
                       (calcPartialFactorial 60 (of_nat (numMarked - caught))))
                 (calcPartialFactorial 80 (of_nat numMarked))
    \<and> is_finite d
    \<and> \<bar>valof d - hypergeometric numMarked caught\<bar> \<le> hypergeometric numMarked caught / 2 ^ 46"
proof -
  let ?y = "hypergeometric numMarked caught"
  from calcKenoProbability_approx [OF assms(2,3)]
  obtain d where d: "calcKenoProbability (of_nat numMarked) (of_nat caught) = Some d"
    and a: "approx (2 * numMarked + 3) d ?y"
    by blast
  have y: "0 < ?y" using a by (cases d) (simp_all add: approx_def)
  have "2 * numMarked + 3 \<le> 2 ^ 51" using assms(2) by simp
  with a have fin: "is_finite d"
    and e: "\<bar>valof d - ?y\<bar> \<le> of_nat (2 * numMarked + 3) * ?y / 2 ^ 52"
    using approx_error by blast+
  have "(of_nat (2 * numMarked + 3) :: rat) \<le> of_nat 64"
    using assms(2) by simp
  then have "of_nat (2 * numMarked + 3) * ?y \<le> 64 * ?y"
    using y by (intro mult_right_mono) simp_all
  then have "of_nat (2 * numMarked + 3) * ?y / 2 ^ 52 \<le> 64 * ?y / 2 ^ 52"
    by (intro divide_right_mono) simp_all
  also have "\<dots> = ?y / 2 ^ 46" by simp
  finally have e': "\<bar>valof d - ?y\<bar> \<le> ?y / 2 ^ 46" using e by linarith
  have c: "calcCombinations (of_nat numMarked) (of_nat caught) = Some (of_nat (numMarked choose caught))"
    by (rule calcCombinations_nat [OF assms(2,3)])
  have ui: "uint (of_nat (numMarked choose caught) :: DWORD) = int (numMarked choose caught)"
    by (rule uint_binomial_dword [OF assms(2)])
  have un: "unat (of_nat (numMarked choose caught) :: DWORD) = numMarked choose caught"
    by (rule unat_binomial_dword [OF assms(2)])
  have "d = fdiv (fmul (fmul (double_of_int (uint (of_nat (numMarked choose caught) :: DWORD)))
                             (calcPartialFactorial 20 (of_nat caught)))
                       (calcPartialFactorial 60 (of_nat (numMarked - caught))))
                 (calcPartialFactorial 80 (of_nat numMarked))"
    using d calcKenoProbability_nat [OF assms(2,3)] unfolding ui by simp
  with c un d fin e' show ?thesis by blast
qed

theorem C1_witness:
  "(1 :: nat) \<le> 9 \<and> (9 :: nat) \<le> 20 \<and> (5 :: nat) \<le> 9 \<and>
   (\<exists>dwNumCombinations d.
      calcCombinations (of_nat 9) (of_nat 5) = Some dwNumCombinations
    \<and> unat dwNumCombinations = 9 choose 5
    \<and> calcKenoProbability (of_nat 9) (of_nat 5) = Some d
    \<and> d = fdiv (fmul (fmul (double_of_int (uint dwNumCombinations))
                             (calcPartialFactorial 20 (of_nat 5)))
                       (calcPartialFactorial 60 (of_nat (9 - 5))))
                 (calcPartialFactorial 80 (of_nat 9))
    \<and> is_finite d
    \<and> \<bar>valof d - hypergeometric 9 5\<bar> \<le> hypergeometric 9 5 / 2 ^ 46)"
proof -
  have a: "(1 :: nat) \<le> 9" and b: "(9 :: nat) \<le> 20" and c: "(5 :: nat) \<le> 9" by simp_all
  from a b c C1_calcKenoProbability_formula [OF a b c] show ?thesis by (intro conjI)
qed

text \<open>
  C8, as stated, fails: for \<open>n = 60000\<close> and \<open>numTerms = 60001\<close> the terms run from
  60000 down to 0, so their product is 0, but the running double product overflows
  to infinity after 65 terms and the final multiplication by 0 yields NaN.
\<close>

theorem C8_counterexample:
  "calcPartialFactorial 60000 60001 = NaN \<and> falling 60000 60001 = 0"
  using calcPartialFactorial_60000_60001 by (simp add: falling_zero)

text \<open>
  C8, amended. For every \<open>n\<close> and \<open>numTerms\<close>, \<open>calcPartialFactorial\<close> returns the
  result of multiplying 1.0 successively by \<open>n, n - 1, ..., n - numTerms + 1\<close> in double
  arithmetic. For \<open>numTerms \<le> n\<close> this is exactly the product when the product is
  below \<open>2 ^ 53\<close>, and a finite double within a relative error of
  \<open>numTerms * 2 ^ - 52\<close> of the product when the product is at most \<open>2 ^ 1022\<close>.
  For \<open>numTerms = 0\<close> it returns 1.0, for any \<open>n\<close>.
\<close>

theorem C8_calcPartialFactorial_product:
  "calcPartialFactorial wN wNumTerms
     = foldl (\<lambda>fResult i. fmul fResult (double_of_int (uint wN - int i))) (Finite False 1)
         [0..<unat wNumTerms]
   \<and> (unat wNumTerms \<le> unat wN \<and> falling (unat wN) (unat wNumTerms) < 2 ^ 53 \<longrightarrow>
        calcPartialFactorial wN wNumTerms = Finite False (of_nat (falling (unat wN) (unat wNumTerms))))
   \<and> (unat wNumTerms \<le> unat wN \<and> falling (unat wN) (unat wNumTerms) \<le> 2 ^ 1022 \<longrightarrow>
        is_finite (calcPartialFactorial wN wNumTerms)
        \<and> \<bar>valof (calcPartialFactorial wN wNumTerms) - of_nat (falling (unat wN) (unat wNumTerms))\<bar>
            \<le> of_nat (unat wNumTerms) * of_nat (falling (unat wN) (unat wNumTerms)) / 2 ^ 52)
   \<and> calcPartialFactorial wN 0 = Finite False 1"
proof -
  let ?n = "unat wN" and ?k = "unat wNumTerms"
  have n: "?n < 2 ^ LENGTH(16)" and k: "?k < 2 ^ LENGTH(16)" by (rule unsigned_less)+
  have st: "pf_step ?n = (\<lambda>fResult i. fmul fResult (double_of_int (uint wN - int i)))"
    by (intro ext) (simp add: pf_step_def)
  have 1: "calcPartialFactorial wN wNumTerms
     = foldl (\<lambda>fResult i. fmul fResult (double_of_int (uint wN - int i))) (Finite False 1) [0..<?k]"
    unfolding st [symmetric] by (rule calcPartialFactorial_foldl)
  have 2: "calcPartialFactorial wN wNumTerms = Finite False (of_nat (falling ?n ?k))"
    if "?k \<le> ?n" and "falling ?n ?k < 2 ^ 53"
    unfolding calcPartialFactorial_foldl using that n by (intro pf_foldl_exact) simp_all
  have 3: "is_finite (calcPartialFactorial wN wNumTerms)
        \<and> \<bar>valof (calcPartialFactorial wN wNumTerms) - of_nat (falling ?n ?k)\<bar>
            \<le> of_nat ?k * of_nat (falling ?n ?k) / 2 ^ 52"
    if le: "?k \<le> ?n" and b: "falling ?n ?k \<le> 2 ^ 1022"
  proof -
    have "(of_nat (falling ?n ?k) :: rat) \<le> of_nat (2 ^ 1022)" using b by (simp only: of_nat_le_iff)
    then have "(of_nat (falling ?n ?k) :: rat) \<le> 2 powi 1022" by simp
    then have "approx ?k (foldl (pf_step ?n) (Finite False 1) [0..<?k]) (of_nat (falling ?n ?k))"
      using le n k by (intro pf_foldl_approx) simp_all
    then have "approx ?k (calcPartialFactorial wN wNumTerms) (of_nat (falling ?n ?k))"
      by (simp only: calcPartialFactorial_foldl)
    moreover have "?k \<le> 2 ^ 51" using k by simp
    ultimately show ?thesis by (rule approx_error)
  qed
  have 4: "calcPartialFactorial wN 0 = Finite False 1"
    by (simp add: calcPartialFactorial_foldl)
  from 1 2 3 4 show ?thesis by blast
qed

theorem C8_witness:
  "unat (4 :: WORD) \<le> unat (10 :: WORD) \<and> falling (unat (10 :: WORD)) (unat (4 :: WORD)) < 2 ^ 53
   \<and> falling (unat (10 :: WORD)) (unat (4 :: WORD)) \<le> 2 ^ 1022
   \<and> calcPartialFactorial 10 4 = Finite False 5040"
proof -
  have "falling 10 (Suc (Suc (Suc (Suc 0)))) = 5040" by (simp add: falling_Suc)
  moreover have "(4 :: nat) = Suc (Suc (Suc (Suc 0)))" by simp
  ultimately have f: "falling 10 4 = 5040" by (simp only:)
  have a: "unat (4 :: WORD) \<le> unat (10 :: WORD)" by simp
  have b: "falling (unat (10 :: WORD)) (unat (4 :: WORD)) < 2 ^ 53" by (simp add: f)
  have c: "falling (unat (10 :: WORD)) (unat (4 :: WORD)) \<le> 2 ^ 1022" by (simp add: f)
  from C8_calcPartialFactorial_product [of 10 4] a b
  have "calcPartialFactorial 10 4 = Finite False (of_nat (falling (unat (10 :: WORD)) (unat (4 :: WORD))))"
    by blast
  then have "calcPartialFactorial 10 4 = Finite False 5040" by (simp add: f)
  with a b c show ?thesis by (intro conjI)
qed
section \<open>Claims about the driving loops\<close>

text \<open>
  C2. For every \<open>spotsMarked\<close> in 1..9 the computed \<open>ExpectedValue[spotsMarked]\<close> (array
  index \<open>spotsMarked - 1\<close>) is the sum, accumulated from 0.0 over \<open>caught = 1, ..., 9\<close>, of
  \<open>Probability * Payout / (spotsMarked + 1)\<close>, where a term is added only when its
  payout entry (table column \<open>caught - 1\<close>) is strictly positive, the divisor is
  \<open>spotsMarked + 1\<close>, and the probability is read from the matrix at row
  \<open>spotsMarked - 1\<close>, column \<open>caught\<close>, which holds \<open>calcKenoProbability (spotsMarked, caught)\<close>
  whenever \<open>caught \<le> spotsMarked\<close>.
\<close>

theorem C2_expected_value:
  assumes "1 \<le> spotsMarked" and "spotsMarked \<le> 9"
  shows "\<exists>P calls E. tmain = Some (P, calls, E)
    \<and> E ! (spotsMarked - 1)
        = foldl (\<lambda>sum caught.
                   if fgt (g_rgCatchPayOut ! (spotsMarked - 1) ! (caught - 1)) (Finite False 0)
                   then fadd sum (fdiv (fmul (P ! (spotsMarked - 1) ! caught)
                                             (g_rgCatchPayOut ! (spotsMarked - 1) ! (caught - 1)))
                                       (Finite False (of_nat (spotsMarked + 1))))
                   else sum)
            (Finite False 0) [1..<10]
    \<and> (\<forall>caught. 1 \<le> caught \<and> caught \<le> spotsMarked \<longrightarrow>
          calcKenoProbability (of_nat spotsMarked) (of_nat caught)
            = Some (P ! (spotsMarked - 1) ! caught))"
proof -
  let ?i = "spotsMarked - 1"
  from tmain_spec obtain P E where t: "tmain = Some (P, all_calls, E)"
    and c: "\<forall>r<20. \<forall>k<21. P ! r ! k = cell r k"
    and e: "\<forall>r<9. E ! r = foldl (ev_term P r) (Finite False 0) [0..<9]"
    by blast
  let ?f = "\<lambda>sum caught.
                   if fgt (g_rgCatchPayOut ! ?i ! (caught - 1)) (Finite False 0)
                   then fadd sum (fdiv (fmul (P ! ?i ! caught) (g_rgCatchPayOut ! ?i ! (caught - 1)))
                                       (Finite False (of_nat (spotsMarked + 1))))
                   else sum"
  have z: "double_of_int 0 = Finite False 0" by (simp add: double_of_int_def)
  have "double_of_int (int ?i + 2) = Finite (int ?i + 2 < 0) (of_int \<bar>int ?i + 2\<bar>)"
    using assms by (intro double_of_int_exact) simp
  also have "\<dots> = Finite False (of_nat (spotsMarked + 1))"
    using assms by (simp add: of_nat_diff)
  finally have dv: "double_of_int (int ?i + 2) = Finite False (of_nat (spotsMarked + 1))" .
  have "ev_term P ?i a j = ?f a (Suc j)" for a j
    unfolding ev_term_def z dv by simp
  then have st: "ev_term P ?i = (\<lambda>a j. ?f a (Suc j))"
    by (intro ext)
  have "E ! ?i = foldl (ev_term P ?i) (Finite False 0) [0..<9]" using e assms by simp
  also have "\<dots> = foldl ?f (Finite False 0) (map Suc [0..<9])"
    unfolding st by (simp only: foldl_map)
  also have "map Suc [0..<9] = [1..<10]" by (simp only: map_Suc_upt) simp
  finally have ev: "E ! ?i = foldl ?f (Finite False 0) [1..<10]" .
  have pr: "\<forall>caught. 1 \<le> caught \<and> caught \<le> spotsMarked \<longrightarrow>
          calcKenoProbability (of_nat spotsMarked) (of_nat caught) = Some (P ! ?i ! caught)"
  proof (intro allI impI)
    fix caught
    assume h: "1 \<le> caught \<and> caught \<le> spotsMarked"
    then have "P ! ?i ! caught = cell ?i caught" using c assms by simp
    moreover have "calcKenoProbability (of_nat spotsMarked) (of_nat caught) = Some (cell ?i caught)"
      using assms h by (intro cell_approx) simp_all
    ultimately show "calcKenoProbability (of_nat spotsMarked) (of_nat caught) = Some (P ! ?i ! caught)"
      by simp
  qed
  from t ev pr show ?thesis by blast
qed

theorem C2_witness:
  "(1 :: nat) \<le> 1 \<and> (1 :: nat) \<le> 9 \<and>
   (\<exists>P calls E. tmain = Some (P, calls, E)
      \<and> (1 \<le> (1 :: nat) \<and> (1 :: nat) \<le> 1 \<longrightarrow> calcKenoProbability (of_nat 1) (of_nat 1) = Some (P ! 0 ! 1)))"
proof -
  have a: "(1 :: nat) \<le> 1" and b: "(1 :: nat) \<le> 9" by simp_all
  from C2_expected_value [OF a b] obtain P calls E where t: "tmain = Some (P, calls, E)"
    and f: "\<forall>caught. 1 \<le> caught \<and> caught \<le> 1 \<longrightarrow>
          calcKenoProbability (of_nat 1) (of_nat caught) = Some (P ! (1 - 1) ! caught)"
    by blast
  from f have "1 \<le> (1 :: nat) \<and> (1 :: nat) \<le> 1 \<longrightarrow>
      calcKenoProbability (of_nat 1) (of_nat 1) = Some (P ! (1 - 1) ! 1)"
    by (rule spec)
  then have "1 \<le> (1 :: nat) \<and> (1 :: nat) \<le> 1 \<longrightarrow>
      calcKenoProbability (of_nat 1) (of_nat 1) = Some (P ! 0 ! 1)"
    by simp
  with t a b show ?thesis by blast
qed

text \<open>
  C3. For every \<open>m\<close> in 1..20 and every \<open>c\<close> in \<open>m + 1\<close>..20 the final matrix entry for
  \<open>(m, c)\<close> (row \<open>m - 1\<close>, column \<open>c\<close>) is \<open>+0.0\<close>, the value it was initialised with, and
  \<open>calcKenoProbability\<close> is never called with \<open>(m, c)\<close> by the driving loop.
\<close>

theorem C3_impossible_cells_zero:
  assumes "1 \<le> m" and "m \<le> 20" and "m < c" and "c \<le> 20"
  shows "\<exists>P calls E. tmain = Some (P, calls, E)
    \<and> P ! (m - 1) ! c = Finite False 0
    \<and> P ! (m - 1) ! c = g_rgProbability_init ! (m - 1) ! c
    \<and> (of_nat m, of_nat c) \<notin> set calls"
proof -
  from tmain_spec obtain P E where t: "tmain = Some (P, all_calls, E)"
    and c: "\<forall>r<20. \<forall>k<21. P ! r ! k = cell r k"
    by blast
  have "P ! (m - 1) ! c = cell (m - 1) c" using c assms by simp
  also have "\<dots> = Finite False 0" using assms by (simp add: cell_def)
  finally have 1: "P ! (m - 1) ! c = Finite False 0" .
  have 2: "g_rgProbability_init ! (m - 1) ! c = Finite False 0"
    using assms by (simp add: g_rgProbability_init_def g_MAX_ROWS_def g_MAX_COLS_def)
  have 3: "((of_nat m :: DWORD), (of_nat c :: DWORD)) \<notin> set all_calls"
    using assms(2,4,3) by (rule not_called)
  from t 1 2 3 show ?thesis by (metis)
qed

theorem C3_witness:
  "(1 :: nat) \<le> 3 \<and> (3 :: nat) \<le> 20 \<and> (3 :: nat) < 5 \<and> (5 :: nat) \<le> 20 \<and>
   (\<exists>P calls E. tmain = Some (P, calls, E) \<and> P ! 2 ! 5 = Finite False 0 \<and> (3, 5) \<notin> set calls)"
proof -
  have a: "(1 :: nat) \<le> 3" and b: "(3 :: nat) \<le> 20" and c: "(3 :: nat) < 5" and d: "(5 :: nat) \<le> 20"
    by simp_all
  from C3_impossible_cells_zero [OF a b c d] obtain P calls E
    where "tmain = Some (P, calls, E)" and "P ! (3 - 1) ! 5 = Finite False 0"
      and "((of_nat 3 :: DWORD), (of_nat 5 :: DWORD)) \<notin> set calls"
    by blast
  then have "tmain = Some (P, calls, E) \<and> P ! 2 ! 5 = Finite False 0 \<and> (3, 5) \<notin> set calls"
    by simp
  with a b c d show ?thesis by blast
qed

text \<open>
  C4. For every \<open>m\<close> in 1..20 the entries \<open>Probability[m][0..m]\<close> of the computed matrix
  are finite doubles and their sum differs from 1 by at most \<open>1e-9\<close>, both when the
  sum is taken exactly and when it is accumulated from 0.0 in double arithmetic,
  from \<open>c = 0\<close> to \<open>c = m\<close>.
\<close>

theorem C4_rows_sum_to_one:
  assumes "1 \<le> m" and "m \<le> 20"
  shows "\<exists>P calls E. tmain = Some (P, calls, E)
    \<and> (\<forall>c\<in>{0..m}. is_finite (P ! (m - 1) ! c))
    \<and> \<bar>(\<Sum>c = 0..m. valof (P ! (m - 1) ! c)) - 1\<bar> \<le> 1 / 10 ^ 9
    \<and> is_finite (foldl fadd (Finite False 0) (map (\<lambda>c. P ! (m - 1) ! c) [0..<Suc m]))
    \<and> \<bar>valof (foldl fadd (Finite False 0) (map (\<lambda>c. P ! (m - 1) ! c) [0..<Suc m])) - 1\<bar>
        \<le> 1 / 10 ^ 9"
proof -
  from tmain_spec obtain P E where t: "tmain = Some (P, all_calls, E)"
    and c: "\<forall>r<20. \<forall>k<21. P ! r ! k = cell r k"
    by blast
  let ?K = "2 * m + 3"
  let ?S = "foldl fadd (Finite False 0) (map (\<lambda>c. P ! (m - 1) ! c) [0..<Suc m])"
  have ap: "\<forall>c\<in>{0..m}. approx ?K (P ! (m - 1) ! c) (hypergeometric m c)"
  proof
    fix k
    assume "k \<in> {0..m}"
    then have k: "k \<le> m" by simp
    then have "P ! (m - 1) ! k = cell (m - 1) k" using c assms by simp
    then show "approx ?K (P ! (m - 1) ! k) (hypergeometric m k)"
      using cell_approx(2) [OF assms k] by simp
  qed
  have K: "?K \<le> 2 ^ 51" using assms by simp
  have fin: "\<forall>c\<in>{0..m}. is_finite (P ! (m - 1) ! c)"
    using ap approx_error [OF _ K] by blast
  have "approx ?K (Finite False (\<Sum>c = 0..m. valof (P ! (m - 1) ! c))) (\<Sum>c = 0..m. hypergeometric m c)"
    using ap by (rule approx_sum)
  then have "approx ?K (Finite False (\<Sum>c = 0..m. valof (P ! (m - 1) ! c))) 1"
    by (simp only: hypergeometric_sum [OF assms(2)])
  from approx_error [OF this K]
  have "\<bar>(\<Sum>c = 0..m. valof (P ! (m - 1) ! c)) - 1\<bar> \<le> of_nat ?K * 1 / 2 ^ 52" by simp
  also have "(of_nat ?K :: rat) \<le> of_nat 43" using assms by simp
  then have "(of_nat ?K :: rat) * 1 / 2 ^ 52 \<le> of_nat 43 * 1 / 2 ^ 52"
    by (intro divide_right_mono mult_right_mono) simp_all
  also have "(of_nat 43 :: rat) * 1 / 2 ^ 52 \<le> 1 / 10 ^ 9" by simp
  finally have ex: "\<bar>(\<Sum>c = 0..m. valof (P ! (m - 1) ! c)) - 1\<bar> \<le> 1 / 10 ^ 9" .
  have "approx (?K + Suc m) ?S (\<Sum>c = 0..m. hypergeometric m c)"
  proof (rule foldl_fadd_approx)
    show "\<forall>c\<le>m. approx ?K (P ! (m - 1) ! c) (hypergeometric m c)" using ap by simp
    show "?K + Suc m \<le> 2 ^ 52" using assms by simp
    show "2 powi (- 1021) \<le> hypergeometric m 0" using assms(2) by (rule hypergeometric_0_lower)
    show "(\<Sum>c = 0..m. hypergeometric m c) \<le> 2 powi 1022"
      unfolding hypergeometric_sum [OF assms(2)] by simp
    show "m \<le> m" by simp
  qed
  then have aS: "approx (?K + Suc m) ?S 1" by (simp only: hypergeometric_sum [OF assms(2)])
  have KS: "?K + Suc m \<le> 2 ^ 51" using assms by simp
  from approx_error [OF aS KS]
  have finS: "is_finite ?S" and "\<bar>valof ?S - 1\<bar> \<le> of_nat (?K + Suc m) * 1 / 2 ^ 52" by simp_all
  note this(2)
  also have "(of_nat (?K + Suc m) :: rat) \<le> of_nat 64" using assms by simp
  then have "(of_nat (?K + Suc m) :: rat) * 1 / 2 ^ 52 \<le> of_nat 64 * 1 / 2 ^ 52"
    by (intro divide_right_mono mult_right_mono) simp_all
  also have "(of_nat 64 :: rat) * 1 / 2 ^ 52 \<le> 1 / 10 ^ 9" by simp
  finally have fl: "\<bar>valof ?S - 1\<bar> \<le> 1 / 10 ^ 9" .
  from t fin ex finS fl show ?thesis by blast
qed

theorem C4_witness:
  "(1 :: nat) \<le> 9 \<and> (9 :: nat) \<le> 20 \<and>
   (\<exists>P calls E. tmain = Some (P, calls, E)
      \<and> \<bar>(\<Sum>c = 0..9. valof (P ! (9 - 1) ! c)) - 1\<bar> \<le> 1 / 10 ^ 9)"
proof -
  have a: "(1 :: nat) \<le> 9" and b: "(9 :: nat) \<le> 20" by simp_all
  from C4_rows_sum_to_one [OF a b] have "\<exists>P calls E. tmain = Some (P, calls, E)
      \<and> \<bar>(\<Sum>c = 0..9. valof (P ! (9 - 1) ! c)) - 1\<bar> \<le> 1 / 10 ^ 9"
    by blast
  with a b show ?thesis by (intro conjI)
qed

text \<open>
  C9. The driving loop calls \<open>calcKenoProbability\<close>, and through it \<open>calcCombinations\<close>,
  exactly with the pairs \<open>(m, c)\<close>, \<open>1 \<le> m \<le> 20\<close>, \<open>c \<le> m\<close>. For each of these calls
  \<open>n = m\<close> is at most 20 (never 80), every argument with which \<open>calcFactorial\<close> is
  entered is at most 20, every 64-bit factorial and the denominator product
  \<open>r! * (n - r)!\<close> hold the mathematical values (no wrap-around), the denominator
  is not zero and the quotient is the binomial coefficient.
\<close>

theorem C9_pipeline_factorials_exact:
  "\<exists>P calls E. tmain = Some (P, calls, E)
    \<and> set calls = {(of_nat m, of_nat c) | m c. 1 \<le> m \<and> m \<le> 20 \<and> c \<le> m}
    \<and> (\<forall>(dwN, dwR)\<in>set calls.
          unat dwN \<le> 20 \<and> dwR \<le> dwN
        \<and> (\<forall>w\<in>set (calcCombinations_calls dwN dwR).
              unat w \<le> 20 \<and> unat (calcFactorial w) = fact (unat w))
        \<and> unat (calcFactorial (ucast dwR) * calcFactorial (ucast (dwN - dwR)))
            = fact (unat dwR) * fact (unat dwN - unat dwR)
        \<and> calcFactorial (ucast dwR) * calcFactorial (ucast (dwN - dwR)) \<noteq> 0
        \<and> calcCombinations dwN dwR = Some (of_nat (unat dwN choose unat dwR)))"
proof -
  from tmain_spec obtain P E where t: "tmain = Some (P, all_calls, E)" by blast
  have "\<forall>(dwN, dwR)\<in>set all_calls.
          unat dwN \<le> 20 \<and> dwR \<le> dwN
        \<and> (\<forall>w\<in>set (calcCombinations_calls dwN dwR).
              unat w \<le> 20 \<and> unat (calcFactorial w) = fact (unat w))
        \<and> unat (calcFactorial (ucast dwR) * calcFactorial (ucast (dwN - dwR)))
            = fact (unat dwR) * fact (unat dwN - unat dwR)
        \<and> calcFactorial (ucast dwR) * calcFactorial (ucast (dwN - dwR)) \<noteq> 0
        \<and> calcCombinations dwN dwR = Some (of_nat (unat dwN choose unat dwR))"
  proof (intro ballI, clarify)
    fix dwN dwR :: DWORD
    assume "(dwN, dwR) \<in> set all_calls"
    then obtain m c where mc: "m \<le> 20" "c \<le> m" and N: "dwN = of_nat m" and R: "dwR = of_nat c"
      unfolding all_calls_set by auto
    have n: "unat dwN \<le> 20" unfolding N using mc by (simp add: unat_of_nat_dword)
    have r: "dwR \<le> dwN" unfolding N R using mc by (intro of_nat_le_dword) simp_all
    have p: "unat (calcFactorial (ucast dwR) * calcFactorial (ucast (dwN - dwR)))
        = fact (unat dwR) * fact (unat dwN - unat dwR)"
      using n r by (rule calcCombinations_exact(2))
    have "fact (unat dwR) * fact (unat dwN - unat dwR) \<noteq> (0 :: nat)" by simp
    with p have nz: "calcFactorial (ucast dwR) * calcFactorial (ucast (dwN - dwR)) \<noteq> 0"
      by (metis unsigned_0)
    have cs: "\<forall>w\<in>set (calcCombinations_calls dwN dwR).
              unat w \<le> 20 \<and> unat (calcFactorial w) = fact (unat w)"
      using calcCombinations_calls_small [OF n r] by blast
    from n r cs p nz calcCombinations_exact(1) [OF n r]
    show "unat dwN \<le> 20 \<and> dwR \<le> dwN
        \<and> (\<forall>w\<in>set (calcCombinations_calls dwN dwR).
              unat w \<le> 20 \<and> unat (calcFactorial w) = fact (unat w))
        \<and> unat (calcFactorial (ucast dwR) * calcFactorial (ucast (dwN - dwR)))
            = fact (unat dwR) * fact (unat dwN - unat dwR)
        \<and> calcFactorial (ucast dwR) * calcFactorial (ucast (dwN - dwR)) \<noteq> 0
        \<and> calcCombinations dwN dwR = Some (of_nat (unat dwN choose unat dwR))"
      by (intro conjI)
  qed
  with t all_calls_set show ?thesis by blast
qed

theorem C9_witness:
  "\<exists>P calls E. tmain = Some (P, calls, E) \<and> (9, 5) \<in> set calls
     \<and> unat (9 :: DWORD) \<le> 20
     \<and> unat (calcFactorial (ucast (5 :: DWORD)) * calcFactorial (ucast (9 - 5 :: DWORD)))
         = fact (unat (5 :: DWORD)) * fact (unat (9 :: DWORD) - unat (5 :: DWORD))"
proof -
  from C9_pipeline_factorials_exact obtain P calls E where t: "tmain = Some (P, calls, E)"
    and s: "set calls = {((of_nat m :: DWORD), (of_nat c :: DWORD)) | m c. 1 \<le> m \<and> m \<le> 20 \<and> c \<le> m}"
    and a: "\<forall>(dwN, dwR)\<in>set calls.
          unat dwN \<le> 20 \<and> dwR \<le> dwN
        \<and> (\<forall>w\<in>set (calcCombinations_calls dwN dwR).
              unat w \<le> 20 \<and> unat (calcFactorial w) = fact (unat w))
        \<and> unat (calcFactorial (ucast dwR) * calcFactorial (ucast (dwN - dwR)))
            = fact (unat dwR) * fact (unat dwN - unat dwR)
        \<and> calcFactorial (ucast dwR) * calcFactorial (ucast (dwN - dwR)) \<noteq> 0
        \<and> calcCombinations dwN dwR = Some (of_nat (unat dwN choose unat dwR))"
    by blast
  have "(1 :: nat) \<le> 9 \<and> (9 :: nat) \<le> 20 \<and> (5 :: nat) \<le> 9
      \<and> ((9 :: DWORD), (5 :: DWORD)) = (of_nat 9, of_nat 5)"
    by simp
  then have m: "((9 :: DWORD), (5 :: DWORD)) \<in> set calls" unfolding s by blast
  with a have "unat (9 :: DWORD) \<le> 20
     \<and> unat (calcFactorial (ucast (5 :: DWORD)) * calcFactorial (ucast (9 - 5 :: DWORD)))
         = fact (unat (5 :: DWORD)) * fact (unat (9 :: DWORD) - unat (5 :: DWORD))"
    by blast
  with t m show ?thesis by blast
qed

text \<open>
  C10. For \<open>numMarked\<close> and \<open>caught\<close> in 0..20 with \<open>caught > numMarked\<close>, a direct call
  \<open>calcKenoProbability (numMarked, caught)\<close>, which the driving loop never makes,
  returns a zero and neither NaN nor an infinity: \<open>calcCombinations\<close> yields 0,
  the term count of the base-60 partial factorial wraps to
  \<open>65536 - (caught - numMarked) \<ge> 65516\<close>, that partial factorial passes through the
  factor 0 and is a zero, and so is the result. The result compares equal to 0.0;
  its sign bit is set exactly when \<open>caught - numMarked\<close> is even, because each of the
  negative factors after the zero flips the sign of the zero.
\<close>

theorem C10_direct_call_zero:
  assumes "numMarked \<le> 20" and "caught \<le> 20" and "numMarked < caught"
  shows "calcCombinations (of_nat numMarked) (of_nat caught) = Some 0
    \<and> 65516 \<le> unat (ucast ((of_nat numMarked :: DWORD) - of_nat caught) :: WORD)
    \<and> calcPartialFactorial 60 (ucast ((of_nat numMarked :: DWORD) - of_nat caught))
        = Finite (even (caught - numMarked)) 0
    \<and> (\<exists>d. calcKenoProbability (of_nat numMarked) (of_nat caught) = Some d
          \<and> is_finite d \<and> valof d = 0 \<and> feq d (Finite False 0)
          \<and> d = Finite (even (caught - numMarked)) 0)
    \<and> (\<exists>P calls E. tmain = Some (P, calls, E)
          \<and> ((of_nat numMarked :: DWORD), (of_nat caught :: DWORD)) \<notin> set calls)"
proof -
  note i = calcKenoProbability_impossible [OF assms]
  have "65516 \<le> unat (ucast ((of_nat numMarked :: DWORD) - of_nat caught) :: WORD)"
    unfolding i(2) using assms by simp
  moreover from tmain_spec obtain P E where "tmain = Some (P, all_calls, E)" by blast
  moreover note not_called [OF assms]
  ultimately show ?thesis using i(1,3,4) by auto
qed

theorem C10_witness:
  "(3 :: nat) \<le> 20 \<and> (5 :: nat) \<le> 20 \<and> (3 :: nat) < 5
   \<and> calcKenoProbability 3 5 = Some (Finite True 0)
   \<and> feq (Finite True 0) (Finite False 0)"
proof -
  have a: "(3 :: nat) \<le> 20" and b: "(5 :: nat) \<le> 20" and c: "(3 :: nat) < 5" by simp_all
  from C10_direct_call_zero [OF a b c]
  have "\<exists>d. calcKenoProbability (of_nat 3) (of_nat 5) = Some d \<and> d = Finite (even ((5 :: nat) - 3)) 0"
    by blast
  then have "calcKenoProbability 3 5 = Some (Finite True 0)" by simp
  then show ?thesis by simp
qed


end
